theory Spec2Isabelle
  imports Complex_Main "HOL-Library.AList" "HOL-Library.Word"
begin

section \<open>Schema model\<close>

text \<open>
  The connector schema as the upload page declares it (\<^verbatim>\<open>type Attribute\<close>,
  \<^verbatim>\<open>type Entity\<close>, \<^verbatim>\<open>type Schema\<close>): an attribute has a name, one of four
  types, a multi-value flag and an optional key flag (\<^verbatim>\<open>IsKey?: boolean\<close>); an entity
  is a name with an ordered attribute list; a schema is a name, a version and an ordered
  entity list. The three \<^verbatim>\<open>name\<close> fields are told apart by a prefix, and the type
  names carry a \<^verbatim>\<open>T\<close>, because a field or constructor is a global constant here.
\<close>

datatype AttrType = TString | TInt | TBool | TDatetime

record Attribute =
  a_name :: string
  a_type :: AttrType
  MultiValue :: bool
  IsKey :: "bool option"

record Entity =
  e_name :: string
  attributes :: "Attribute list"

record Schema =
  s_name :: string
  version :: string
  entities :: "Entity list"

text \<open>
  The exceptions of the modelled code: reading a property of \<^verbatim>\<open>undefined\<close> or
  \<^verbatim>\<open>null\<close> and a failed \<^verbatim>\<open>fetch\<close> throw a TypeError; \<^verbatim>\<open>res.json()\<close> on
  a body that is not JSON throws a SyntaxError.
\<close>

datatype js_error = TypeError | SyntaxError

text \<open>
  A non-negative integer in a template literal, \<^verbatim>\<open>`${n}`\<close>: its decimal digits; and
  an integer, with its sign.
\<close>

definition digit_char :: "nat \<Rightarrow> char" where
  "digit_char d = ''0123456789'' ! d"

fun show_nat :: "nat \<Rightarrow> string" where
  "show_nat n = (if n < 10 then [digit_char n] else show_nat (n div 10) @ [digit_char (n mod 10)])"

declare show_nat.simps [simp del]

definition show_int :: "int \<Rightarrow> string" where
  "show_int i = (if i < 0 then CHR ''-'' # show_nat (nat (- i)) else show_nat (nat i))"

section \<open>Schema edit model\<close>

text \<open>
  The editor's state is the pair of React state cells \<^verbatim>\<open>schema\<close>
  (\<^verbatim>\<open>Schema | null\<close>) and \<^verbatim>\<open>selectedEntity\<close> (a number, kept as an integer
  so that a negative index can be written).
\<close>

record EditState =
  schema :: "Schema option"
  selectedEntity :: int

text \<open>\<^verbatim>\<open>xs.splice(i, 1)\<close> for an index inside the array.\<close>

definition splice1 :: "nat \<Rightarrow> 'a list \<Rightarrow> 'a list" where
  "splice1 i xs = take i xs @ drop (Suc i) xs"

text \<open>
  \<^verbatim>\<open>removeEntity(idx)\<close>: returns at once without a schema or with an index out of
  range; otherwise removes the entity from a copy, and sets the selection to 0 when
  nothing is left, else to \<^verbatim>\<open>Math.max(0, Math.min(idx, s.entities.length - 1))\<close>.
\<close>

definition removeEntity :: "int \<Rightarrow> EditState \<Rightarrow> EditState" where
  "removeEntity idx st =
     (case schema st of
        None \<Rightarrow> st
      | Some sc \<Rightarrow>
          if idx < 0 \<or> idx \<ge> int (length (entities sc)) then st
          else
            let s = sc\<lparr>entities := splice1 (nat idx) (entities sc)\<rparr> in
            if length (entities s) = 0
            then st\<lparr>schema := Some s, selectedEntity := 0\<rparr>
            else st\<lparr>schema := Some s,
                    selectedEntity := max 0 (min idx (int (length (entities s)) - 1))\<rparr>)"

text \<open>
  The body of \<^verbatim>\<open>attributes.forEach((attr, idx) => { attr.IsKey = makeKey && idx === ai })\<close>,
  with the running index as an argument.
\<close>

fun forEach_key :: "bool \<Rightarrow> int \<Rightarrow> nat \<Rightarrow> Attribute list \<Rightarrow> Attribute list" where
  "forEach_key makeKey ai idx [] = []"
| "forEach_key makeKey ai idx (attr # rest) =
     attr\<lparr>IsKey := Some (makeKey \<and> int idx = ai)\<rparr> # forEach_key makeKey ai (Suc idx) rest"

text \<open>
  \<^verbatim>\<open>toggleKey(ei, ai, makeKey)\<close> on the \<^verbatim>\<open>schema\<close> cell: nothing without a schema;
  \<^verbatim>\<open>s.entities[ei].attributes\<close> throws when \<^verbatim>\<open>ei\<close> is no index of the entity
  array (the state is then left as it was); otherwise every attribute of that entity gets
  its flag assigned.
\<close>

definition toggleKey :: "int \<Rightarrow> int \<Rightarrow> bool \<Rightarrow> Schema option \<Rightarrow> js_error + Schema option" where
  "toggleKey ei ai makeKey st =
     (case st of
        None \<Rightarrow> Inr None
      | Some sc \<Rightarrow>
          if ei < 0 \<or> ei \<ge> int (length (entities sc)) then Inl TypeError
          else
            let e = entities sc ! nat ei;
                e' = e\<lparr>attributes := forEach_key makeKey ai 0 (attributes e)\<rparr>
            in Inr (Some (sc\<lparr>entities := (entities sc)[nat ei := e']\<rparr>)))"

text \<open>The number of attributes whose key flag is set.\<close>

definition key_count :: "Attribute list \<Rightarrow> nat" where
  "key_count as = length (filter (\<lambda>a. IsKey a = Some True) as)"

text \<open>
  A sequence of \<^verbatim>\<open>toggleKey\<close> calls, each given as (entity index, attribute index,
  makeKey), run from left to right; a throwing call ends the run.
\<close>

fun toggle_all :: "(int \<times> int \<times> bool) list \<Rightarrow> Schema option \<Rightarrow> js_error + Schema option" where
  "toggle_all [] st = Inr st"
| "toggle_all ((ei, ai, makeKey) # ops) st =
     (case toggleKey ei ai makeKey st of
        Inl err \<Rightarrow> Inl err
      | Inr st' \<Rightarrow> toggle_all ops st')"

text \<open>Sample data: an attribute with all four fields, and schemas built from it.\<close>

definition attr :: "string \<Rightarrow> AttrType \<Rightarrow> bool \<Rightarrow> bool \<Rightarrow> Attribute" where
  "attr n t mv k = \<lparr>a_name = n, a_type = t, MultiValue = mv, IsKey = Some k\<rparr>"

definition two_key_schema :: Schema where
  "two_key_schema = \<lparr>s_name = ''Connector'', version = ''1.0.0'',
     entities = [\<lparr>e_name = ''User'',
                  attributes = [attr ''id'' TString False True, attr ''email'' TString False True]\<rparr>]\<rparr>"

definition three_entity_state :: EditState where
  "three_entity_state = \<lparr>schema = Some \<lparr>s_name = ''Connector'', version = ''1.0.0'',
       entities = [\<lparr>e_name = ''User'', attributes = [attr ''id'' TString False True]\<rparr>,
                   \<lparr>e_name = ''Group'', attributes = [attr ''id'' TString False True]\<rparr>,
                   \<lparr>e_name = ''Role'', attributes = []\<rparr>]\<rparr>,
     selectedEntity = 2\<rparr>"

section \<open>Parsed JSON values\<close>

text \<open>
  The merge engine and the polling routine work on what \<^verbatim>\<open>JSON.parse\<close> and
  \<^verbatim>\<open>res.json()\<close> return: \<^verbatim>\<open>null\<close>, a boolean, a number, a string, an array, or
  an object. An object is the list of its own properties in insertion order, read by its
  first entry for a key. Numbers are kept as rationals; the code only tests them for
  being zero and for equality. \<^verbatim>\<open>undefined\<close>, the result of reading a property that
  is not there, is \<open>None\<close> of \<open>json option\<close>.
\<close>

datatype json =
    JNull
  | JBool bool
  | JNum rat
  | JStr string
  | JArr "json list"
  | JObj "(string \<times> json) list"

text \<open>Truthiness of a value, as \<^verbatim>\<open>x && ...\<close>, \<^verbatim>\<open>!x\<close> and \<^verbatim>\<open>find\<close> test it.\<close>

fun truthy :: "json \<Rightarrow> bool" where
  "truthy JNull = False"
| "truthy (JBool b) = b"
| "truthy (JNum n) = (n \<noteq> 0)"
| "truthy (JStr s) = (s \<noteq> [])"
| "truthy (JArr xs) = True"
| "truthy (JObj kvs) = True"

fun truthy_opt :: "json option \<Rightarrow> bool" where
  "truthy_opt None = False"
| "truthy_opt (Some v) = truthy v"

text \<open>
  \<^verbatim>\<open>x.k\<close> for a value \<open>x\<close> that is not \<^verbatim>\<open>null\<close>, and a key \<open>k\<close> among
  \<^verbatim>\<open>name\<close>, \<^verbatim>\<open>version\<close>, \<^verbatim>\<open>entities\<close>, \<^verbatim>\<open>attributes\<close>, \<^verbatim>\<open>ok\<close>,
  \<^verbatim>\<open>result\<close>: an object yields its own property, and a boolean, number, string or
  array has none of these properties.
\<close>

fun get_prop :: "string \<Rightarrow> json \<Rightarrow> json option" where
  "get_prop k (JObj kvs) = map_of kvs k"
| "get_prop k v = None"

text \<open>\<^verbatim>\<open>x?.k\<close>: \<^verbatim>\<open>undefined\<close> on \<^verbatim>\<open>null\<close>, else \<^verbatim>\<open>x.k\<close>.\<close>

fun get_prop_opt :: "string \<Rightarrow> json \<Rightarrow> json option" where
  "get_prop_opt k JNull = None"
| "get_prop_opt k v = get_prop k v"

text \<open>\<^verbatim>\<open>x.k\<close> where \<open>x\<close> may be \<^verbatim>\<open>null\<close>: reading a property of \<^verbatim>\<open>null\<close> throws.\<close>

fun get_prop_strict :: "string \<Rightarrow> json \<Rightarrow> js_error + json option" where
  "get_prop_strict k JNull = Inl TypeError"
| "get_prop_strict k v = Inr (get_prop k v)"

section \<open>Schema merge engine\<close>

text \<open>
  The shape tests: \<^verbatim>\<open>isEnt(x) = x && typeof x.name === "string" && Array.isArray(x.attributes)\<close>
  and \<^verbatim>\<open>isSchema(x) = x && Array.isArray(x.entities)\<close>.
\<close>

definition isEnt :: "json \<Rightarrow> bool" where
  "isEnt x = (truthy x \<and>
     (case get_prop ''name'' x of Some (JStr s) \<Rightarrow> True | _ \<Rightarrow> False) \<and>
     (case get_prop ''attributes'' x of Some (JArr as) \<Rightarrow> True | _ \<Rightarrow> False))"

definition isSchema :: "json \<Rightarrow> bool" where
  "isSchema x = (truthy x \<and>
     (case get_prop ''entities'' x of Some (JArr es) \<Rightarrow> True | _ \<Rightarrow> False))"

text \<open>
  \<^verbatim>\<open>d.entities\<close> of a document that passed \<^verbatim>\<open>isSchema\<close>, and \<^verbatim>\<open>e.name\<close> and
  \<^verbatim>\<open>e.attributes\<close> of an element that passed \<^verbatim>\<open>isEnt\<close>; the last case of each is
  never reached after the test.
\<close>

definition entities_of :: "json \<Rightarrow> json list" where
  "entities_of d = (case get_prop ''entities'' d of Some (JArr es) \<Rightarrow> es | _ \<Rightarrow> [])"

definition ent_name :: "json \<Rightarrow> string" where
  "ent_name e = (case get_prop ''name'' e of Some (JStr s) \<Rightarrow> s | _ \<Rightarrow> [])"

definition ent_attrs :: "json \<Rightarrow> json list" where
  "ent_attrs e = (case get_prop ''attributes'' e of Some (JArr as) \<Rightarrow> as | _ \<Rightarrow> [])"

text \<open>
  An entity of the result, \<^verbatim>\<open>{ name: e.name, attributes: [...] }\<close>: the attributes are
  the input's values as they came, and the result's name and version are whatever truthy
  value a document carried.
\<close>

record RawEntity =
  r_name :: string
  r_attributes :: "json list"

record MergedSchema =
  m_name :: json
  m_version :: json
  m_entities :: "RawEntity list"

text \<open>
  \<^verbatim>\<open>have.has(v)\<close> on the \<^verbatim>\<open>Set\<close> of attribute names compares by SameValueZero:
  \<^verbatim>\<open>undefined\<close>, \<^verbatim>\<open>null\<close>, booleans, numbers and strings by value, objects and
  arrays by identity. The input is the tree \<^verbatim>\<open>JSON.parse\<close> built and every attribute
  is visited once, so an object or array that is a name is never the one stored before.
\<close>

fun same_value_zero :: "json option \<Rightarrow> json option \<Rightarrow> bool" where
  "same_value_zero None None = True"
| "same_value_zero (Some JNull) (Some JNull) = True"
| "same_value_zero (Some (JBool a)) (Some (JBool b)) = (a = b)"
| "same_value_zero (Some (JNum a)) (Some (JNum b)) = (a = b)"
| "same_value_zero (Some (JStr a)) (Some (JStr b)) = (a = b)"
| "same_value_zero x y = False"

definition set_has :: "json option list \<Rightarrow> json option \<Rightarrow> bool" where
  "set_has have v = list_ex (\<lambda>x. same_value_zero x v) have"

text \<open>\<^verbatim>\<open>target.attributes.map(a => a.name)\<close>; it throws on a \<^verbatim>\<open>null\<close> attribute.\<close>

fun names_of :: "json list \<Rightarrow> js_error + json option list" where
  "names_of [] = Inr []"
| "names_of (a # as) =
     (case get_prop_strict ''name'' a of
        Inl err \<Rightarrow> Inl err
      | Inr v \<Rightarrow> (case names_of as of Inl err \<Rightarrow> Inl err | Inr vs \<Rightarrow> Inr (v # vs)))"

text \<open>
  The de-duplicating loop over \<^verbatim>\<open>e.attributes\<close>, on the pair of
  \<^verbatim>\<open>target.attributes\<close> and the set \<^verbatim>\<open>have\<close>:
  \<^verbatim>\<open>if (a?.name && !have.has(a.name)) { target.attributes.push(a); have.add(a.name) }\<close>.
\<close>

fun add_attrs :: "json list \<Rightarrow> json list \<times> json option list \<Rightarrow> json list \<times> json option list" where
  "add_attrs [] (tattrs, have) = (tattrs, have)"
| "add_attrs (a # as) (tattrs, have) =
     (if truthy_opt (get_prop_opt ''name'' a) \<and> \<not> set_has have (get_prop_opt ''name'' a)
      then add_attrs as (tattrs @ [a], have @ [get_prop_opt ''name'' a])
      else add_attrs as (tattrs, have))"

text \<open>
  One round of the inner loop on the \<^verbatim>\<open>Map\<close> \<^verbatim>\<open>byName\<close>, kept as the list of its
  entries in insertion order: an element that fails \<^verbatim>\<open>isEnt\<close> is skipped; a new name
  is appended with a copy of the attribute array; a known name has its target's
  attribute array extended in place.
\<close>

definition merge_entity :: "json \<Rightarrow> (string \<times> RawEntity) list \<Rightarrow> js_error + (string \<times> RawEntity) list" where
  "merge_entity e byName =
     (if \<not> isEnt e then Inr byName
      else
        (case map_of byName (ent_name e) of
           None \<Rightarrow>
             Inr (byName @ [(ent_name e, \<lparr>r_name = ent_name e, r_attributes = ent_attrs e\<rparr>)])
         | Some target \<Rightarrow>
             (case names_of (r_attributes target) of
                Inl err \<Rightarrow> Inl err
              | Inr have \<Rightarrow>
                  Inr (AList.update (ent_name e)
                         (target\<lparr>r_attributes :=
                            fst (add_attrs (ent_attrs e) (r_attributes target, have))\<rparr>)
                         byName))))"

text \<open>\<^verbatim>\<open>for (const e of d.entities)\<close> and \<^verbatim>\<open>for (const d of docs)\<close>.\<close>

fun merge_entities :: "json list \<Rightarrow> (string \<times> RawEntity) list \<Rightarrow> js_error + (string \<times> RawEntity) list" where
  "merge_entities [] byName = Inr byName"
| "merge_entities (e # es) byName =
     (case merge_entity e byName of
        Inl err \<Rightarrow> Inl err
      | Inr byName' \<Rightarrow> merge_entities es byName')"

fun merge_docs :: "json list \<Rightarrow> (string \<times> RawEntity) list \<Rightarrow> js_error + (string \<times> RawEntity) list" where
  "merge_docs [] byName = Inr byName"
| "merge_docs (d # ds) byName =
     (case merge_entities (entities_of d) byName of
        Inl err \<Rightarrow> Inl err
      | Inr byName' \<Rightarrow> merge_docs ds byName')"

text \<open>
  \<^verbatim>\<open>docs.find(d => d.k)?.k ?? dflt\<close>: the value of the first document whose property
  \<open>k\<close> is truthy, else the default.
\<close>

definition first_truthy :: "string \<Rightarrow> json list \<Rightarrow> json \<Rightarrow> json" where
  "first_truthy k docs dflt =
     (case find (\<lambda>d. truthy_opt (get_prop k d)) docs of
        None \<Rightarrow> dflt
      | Some d \<Rightarrow> (case get_prop k d of None \<Rightarrow> dflt | Some JNull \<Rightarrow> dflt | Some v \<Rightarrow> v))"

text \<open>The documents the merge keeps: the elements of an array, or the single value, that pass \<^verbatim>\<open>isSchema\<close>.\<close>

definition docs_of :: "json \<Rightarrow> json list" where
  "docs_of input =
     (case input of
        JArr xs \<Rightarrow> filter isSchema xs
      | _ \<Rightarrow> if isSchema input then [input] else [])"

definition mergeSchemas :: "json \<Rightarrow> js_error + MergedSchema" where
  "mergeSchemas input =
     (let docs = docs_of input in
      case merge_docs docs [] of
        Inl err \<Rightarrow> Inl err
      | Inr byName \<Rightarrow>
          Inr \<lparr>m_name = first_truthy ''name'' docs (JStr ''Connector''),
               m_version = first_truthy ''version'' docs (JStr ''1.0.0''),
               m_entities = map snd byName\<rparr>)"

text \<open>
  A schema of the declared types as the JSON value it serializes to and parses from; an
  absent \<^verbatim>\<open>IsKey\<close> is an absent property.
\<close>

fun type_json :: "AttrType \<Rightarrow> json" where
  "type_json TString = JStr ''String''"
| "type_json TInt = JStr ''Int''"
| "type_json TBool = JStr ''Bool''"
| "type_json TDatetime = JStr ''Datetime''"

definition attr_json :: "Attribute \<Rightarrow> json" where
  "attr_json a = JObj ([(''name'', JStr (a_name a)), (''type'', type_json (a_type a)),
       (''MultiValue'', JBool (MultiValue a))] @
       (case IsKey a of None \<Rightarrow> [] | Some k \<Rightarrow> [(''IsKey'', JBool k)]))"

definition ent_json :: "Entity \<Rightarrow> json" where
  "ent_json e = JObj [(''name'', JStr (e_name e)), (''attributes'', JArr (map attr_json (attributes e)))]"

definition schema_json :: "Schema \<Rightarrow> json" where
  "schema_json s = JObj [(''name'', JStr (s_name s)), (''version'', JStr (version s)),
       (''entities'', JArr (map ent_json (entities s)))]"

text \<open>The result the merge gives for a schema that comes back as it went in.\<close>

definition raw_entity :: "Entity \<Rightarrow> RawEntity" where
  "raw_entity e = \<lparr>r_name = e_name e, r_attributes = map attr_json (attributes e)\<rparr>"

definition merged_of :: "Schema \<Rightarrow> MergedSchema" where
  "merged_of s = \<lparr>m_name = JStr (s_name s), m_version = JStr (version s),
       m_entities = map raw_entity (entities s)\<rparr>"

text \<open>
  The name of an attribute when it is a string (\<^verbatim>\<open>a?.name\<close> with
  \<^verbatim>\<open>typeof\<close> string), the string names of an attribute list in order, the entities
  the merge reads (those of the kept documents that pass \<^verbatim>\<open>isEnt\<close>, in input
  order), and the first of them with a given name.
\<close>

definition str_name :: "json \<Rightarrow> string option" where
  "str_name a = (case get_prop_opt ''name'' a of Some (JStr s) \<Rightarrow> Some s | _ \<Rightarrow> None)"

definition str_names :: "json list \<Rightarrow> string list" where
  "str_names as = List.map_filter str_name as"

definition input_entities :: "json \<Rightarrow> json list" where
  "input_entities input = filter isEnt (concat (map entities_of (docs_of input)))"

definition first_named :: "string \<Rightarrow> json list \<Rightarrow> json option" where
  "first_named n es = find (\<lambda>e. ent_name e = n) es"

text \<open>
  Notions for the proofs. \<open>keyed\<close>: the entries of \<^verbatim>\<open>byName\<close> have distinct keys
  and each target carries its key as name. \<open>attrs_ok\<close>: no target has two attributes
  with the same string name. \<open>firsts_ok\<close>: the same for every entity still to come that
  will introduce a new name. \<open>add_occ\<close>: what a further occurrence of an entity adds to
  its target. \<open>occ\<close>: the attribute lists of the occurrences of a name, in order.
  \<open>named\<close>: the attributes of a list with a given string name.
\<close>

definition keyed :: "(string \<times> RawEntity) list \<Rightarrow> bool" where
  "keyed b = (distinct (map fst b) \<and> (\<forall>(k, t) \<in> set b. r_name t = k))"

definition attrs_ok :: "(string \<times> RawEntity) list \<Rightarrow> bool" where
  "attrs_ok b = (\<forall>(k, t) \<in> set b. distinct (str_names (r_attributes t)))"

definition firsts_ok :: "json list \<Rightarrow> (string \<times> RawEntity) list \<Rightarrow> bool" where
  "firsts_ok es b = (\<forall>n e. n \<notin> fst ` set b \<longrightarrow> first_named n (filter isEnt es) = Some e \<longrightarrow>
      distinct (str_names (ent_attrs e)))"

definition add_occ :: "json list \<Rightarrow> json list \<Rightarrow> json list" where
  "add_occ t as = fst (add_attrs as (t, map (get_prop_opt ''name'') t))"

definition occ :: "string \<Rightarrow> json list \<Rightarrow> json list list" where
  "occ n es = map ent_attrs (filter (\<lambda>e. isEnt e \<and> ent_name e = n) es)"

definition named :: "string \<Rightarrow> json list \<Rightarrow> json list" where
  "named m as = filter (\<lambda>b. str_name b = Some m) as"

definition no_null :: "(string \<times> RawEntity) list \<Rightarrow> bool" where
  "no_null b = (\<forall>(k, t) \<in> set b. JNull \<notin> set (r_attributes t))"

text \<open>
  The definitions a typed document gives for attribute \<open>m\<close> of entity \<open>n\<close>, in document
  order.
\<close>

definition defs_in_doc :: "Schema \<Rightarrow> string \<Rightarrow> string \<Rightarrow> Attribute list" where
  "defs_in_doc d n m =
     filter (\<lambda>a. a_name a = m) (concat (map attributes (filter (\<lambda>e. e_name e = n) (entities d))))"

text \<open>Sample documents.\<close>

definition dup_schema :: Schema where
  "dup_schema = \<lparr>s_name = ''Connector'', version = ''1.0.0'',
     entities = [\<lparr>e_name = ''User'',
                  attributes = [attr ''email'' TString False False, attr ''email'' TInt False False]\<rparr>]\<rparr>"

definition docA :: Schema where
  "docA = \<lparr>s_name = ''A'', version = ''1.0.0'',
     entities = [\<lparr>e_name = ''User'',
                  attributes = [attr ''id'' TString False True, attr ''userName'' TString False False]\<rparr>]\<rparr>"

definition docB :: Schema where
  "docB = \<lparr>s_name = ''B'', version = ''2.0.0'',
     entities = [\<lparr>e_name = ''User'',
                  attributes = [attr ''userName'' TInt True False, attr ''active'' TBool False False]\<rparr>,
                 \<lparr>e_name = ''Group'', attributes = [attr ''id'' TString False True]\<rparr>]\<rparr>"

definition merged_AB :: MergedSchema where
  "merged_AB = \<lparr>m_name = JStr ''A'', m_version = JStr ''1.0.0'',
     m_entities = [\<lparr>r_name = ''User'',
                    r_attributes = [attr_json (attr ''id'' TString False True),
                                    attr_json (attr ''userName'' TString False False),
                                    attr_json (attr ''active'' TBool False False)]\<rparr>,
                   \<lparr>r_name = ''Group'', r_attributes = [attr_json (attr ''id'' TString False True)]\<rparr>]\<rparr>"

definition unnamed_first :: Schema where
  "unnamed_first = \<lparr>s_name = ''A'', version = ''1.0.0'',
     entities = [\<lparr>e_name = ''User'', attributes = [attr ''id'' TString False True]\<rparr>,
                 \<lparr>e_name = ''User'', attributes = [attr [] TInt False False]\<rparr>]\<rparr>"

definition unnamed_second :: Schema where
  "unnamed_second = \<lparr>s_name = ''B'', version = ''1.0.0'',
     entities = [\<lparr>e_name = ''User'', attributes = [attr [] TString False False]\<rparr>]\<rparr>"

definition nameless_schema :: Schema where
  "nameless_schema = \<lparr>s_name = [], version = ''1.0.0'', entities = []\<rparr>"

section \<open>Job submission: polling\<close>

text \<open>
  What \<^verbatim>\<open>fetch\<close> gives for one poll: it rejects (a network error), or it resolves to
  a response with its \<^verbatim>\<open>ok\<close> flag (status 200 to 299), status, status text and
  body; the body is the value \<^verbatim>\<open>res.json()\<close> parses, or \<open>None\<close> when the body is
  not JSON (an empty body among others).
\<close>

record Response =
  res_ok :: bool
  res_status :: nat
  res_statusText :: string
  res_body :: "json option"

datatype fetch_result = NetworkError | Returned Response

text \<open>
  The value the routine returns: \<^verbatim>\<open>{ ok: true, result }\<close> or
  \<^verbatim>\<open>{ ok: false, error }\<close>.
\<close>

datatype poll_result = Ok json | Err string

text \<open>What the routine does to the outside: it waits, and it issues a poll.\<close>

datatype effect = Wait nat | Poll

definition POLL_DELAYS_MS :: "nat list" where
  "POLL_DELAYS_MS = [10000, 15000, 15000, 10000, 15000]"

text \<open>
  \<^verbatim>\<open>j?.ok && j.result\<close>: the result payload of a body, when both the flag and the
  payload are truthy.
\<close>

definition payload :: "json \<Rightarrow> json option" where
  "payload j =
     (if truthy_opt (get_prop_opt ''ok'' j)
      then (case get_prop ''result'' j of
              Some v \<Rightarrow> if truthy v then Some v else None
            | None \<Rightarrow> None)
      else None)"

text \<open>
  The body of the loop after the wait, on the outcome of the \<^verbatim>\<open>fetch\<close>: it throws,
  it returns a value, or (\<open>None\<close>) it falls through to the next round.
\<close>

definition poll_once :: "fetch_result \<Rightarrow> (js_error + poll_result) option" where
  "poll_once fr =
     (case fr of
        NetworkError \<Rightarrow> Some (Inl TypeError)
      | Returned res \<Rightarrow>
          if \<not> res_ok res
          then Some (Inr (Err (show_nat (res_status res) @ '' '' @ res_statusText res)))
          else (case res_body res of
                  None \<Rightarrow> Some (Inl SyntaxError)
                | Some j \<Rightarrow>
                    (case payload j of
                       Some v \<Rightarrow> Some (Inr (Ok v))
                     | None \<Rightarrow> None)))"

text \<open>
  The loop over the delays: the server is the function from the number of a poll to the
  outcome of its \<^verbatim>\<open>fetch\<close>, and the effects are collected in order.
\<close>

fun poll_loop :: "nat list \<Rightarrow> nat \<Rightarrow> (nat \<Rightarrow> fetch_result) \<Rightarrow> effect list \<Rightarrow>
    (js_error + poll_result) \<times> effect list" where
  "poll_loop [] i server tr = (Inr (Err ''No result within polling window''), tr)"
| "poll_loop (d # ds) i server tr =
     (case poll_once (server i) of
        Some out \<Rightarrow> (out, tr @ [Wait d, Poll])
      | None \<Rightarrow> poll_loop ds (Suc i) server (tr @ [Wait d, Poll]))"

definition pollResultWithDelays :: "(nat \<Rightarrow> fetch_result) \<Rightarrow> (js_error + poll_result) \<times> effect list" where
  "pollResultWithDelays server = poll_loop POLL_DELAYS_MS 0 server []"

text \<open>
  A pending answer: the fetch resolved to an HTTP-OK response whose body is JSON and
  for which \<^verbatim>\<open>j?.ok && j.result\<close> is falsy.
\<close>

definition pending :: "fetch_result \<Rightarrow> bool" where
  "pending fr =
     (case fr of
        NetworkError \<Rightarrow> False
      | Returned res \<Rightarrow>
          res_ok res \<and>
          (case res_body res of
             None \<Rightarrow> False
           | Some j \<Rightarrow> \<not> (truthy_opt (get_prop_opt ''ok'' j) \<and> truthy_opt (get_prop ''result'' j))))"

text \<open>The effects of the first \<open>k\<close> rounds: each wait of the schedule, followed by one poll.\<close>

definition rounds :: "nat \<Rightarrow> effect list" where
  "rounds k = concat (map (\<lambda>d. [Wait d, Poll]) (take k POLL_DELAYS_MS))"

text \<open>Sample servers: one that answers 404 with a JSON body, and some bodies.\<close>

definition not_found :: Response where
  "not_found = \<lparr>res_ok = False, res_status = 404, res_statusText = ''Not Found'',
      res_body = Some (JObj [(''ok'', JBool False), (''error'', JStr ''unknown id'')])\<rparr>"

definition not_found_server :: "nat \<Rightarrow> fetch_result" where
  "not_found_server i = Returned not_found"

definition pending_response :: Response where
  "pending_response = \<lparr>res_ok = True, res_status = 200, res_statusText = ''OK'',
      res_body = Some (JObj [(''ok'', JBool True), (''result'', JNull)])\<rparr>"

definition done_response :: Response where
  "done_response = \<lparr>res_ok = True, res_status = 200, res_statusText = ''OK'',
      res_body = Some (JObj [(''ok'', JBool True), (''result'', JStr ''{}'')])\<rparr>"

definition third_poll_server :: "nat \<Rightarrow> fetch_result" where
  "third_poll_server i = (if i < 2 then Returned pending_response else Returned done_response)"

definition second_poll_refused :: "nat \<Rightarrow> fetch_result" where
  "second_poll_refused i = (if i < 1 then Returned pending_response else Returned not_found)"

definition pending_server :: "nat \<Rightarrow> fetch_result" where
  "pending_server i = Returned pending_response"

section \<open>Job submission: correlation identifier\<close>

definition ALPHABET :: string where
  "ALPHABET = ''0123456789abcdefghijklmnopqrstuvwxyzABCDEFGHIJKLMNOPQRSTUVWXYZ''"

text \<open>\<^verbatim>\<open>limit = 256 - (256 % n)\<close> with \<^verbatim>\<open>n = ALPHABET.length\<close>.\<close>

definition limit :: nat where
  "limit = 256 - (256 mod length ALPHABET)"

text \<open>A byte is accepted when \<^verbatim>\<open>v < limit\<close>; its symbol is \<^verbatim>\<open>ALPHABET[v % n]\<close>.\<close>

definition accepted :: "8 word \<Rightarrow> bool" where
  "accepted v = (unat v < limit)"

definition symbol :: "8 word \<Rightarrow> char" where
  "symbol v = ALPHABET ! (unat v mod length ALPHABET)"

text \<open>
  The inner loop over one filled buffer,
  \<^verbatim>\<open>for (i = 0; i < buf.length && out.length < len; i++) if (v < limit) out.push(...)\<close>.
\<close>

fun fill :: "nat \<Rightarrow> 8 word list \<Rightarrow> string \<Rightarrow> string" where
  "fill len [] out = out"
| "fill len (v # buf) out =
     (if length out < len
      then fill len buf (if accepted v then out @ [symbol v] else out)
      else out)"

text \<open>
  The byte source is the sequence of bytes \<^verbatim>\<open>crypto.getRandomValues\<close> delivers; the
  \<open>k\<close>-th call fills the buffer of \<^verbatim>\<open>len * 2\<close> bytes with the next bytes of it.
\<close>

definition buffer :: "(nat \<Rightarrow> 8 word) \<Rightarrow> nat \<Rightarrow> nat \<Rightarrow> 8 word list" where
  "buffer src len k = map src [k * (len * 2) ..< Suc k * (len * 2)]"

text \<open>
  The outer loop \<^verbatim>\<open>while (out.length < len)\<close>. It runs for as long as the source
  delivers too few accepted bytes, so it is a partial function: \<open>None\<close> is not returning.
\<close>

partial_function (option) id_loop :: "(nat \<Rightarrow> 8 word) \<Rightarrow> nat \<Rightarrow> nat \<Rightarrow> string \<Rightarrow> string option" where
  "id_loop src len k out =
     (if length out < len
      then id_loop src len (Suc k) (fill len (buffer src len k) out)
      else Some out)"

declare id_loop.simps [code]

definition id30Base62 :: "(nat \<Rightarrow> 8 word) \<Rightarrow> string option" where
  "id30Base62 src = id_loop src 30 0 []"

text \<open>A sample source: the bytes 230, 231, ..., wrapping around at 256.\<close>

definition counting_source :: "nat \<Rightarrow> 8 word" where
  "counting_source i = word_of_nat (230 + i)"

section \<open>Upload items\<close>

text \<open>
  A picked file by what the page reads of it (name, size, MIME type, modification time),
  and an item of the list: its id, file, status, and optional status code and message.
\<close>

datatype Status = Pending | Uploading | Done | Error | Processing

record File =
  f_name :: string
  f_size :: nat
  f_type :: string
  lastModified :: int

record Item =
  item_id :: string
  item_file :: File
  status :: Status
  statusCode :: "nat option"
  message :: "string option"

text \<open>The key of an item in \<^verbatim>\<open>onPick\<close>, \<^verbatim>\<open>`${file.name}-${file.size}`\<close>.\<close>

definition file_key :: "File \<Rightarrow> string" where
  "file_key f = f_name f @ ''-'' @ show_nat (f_size f)"

text \<open>
  The item \<^verbatim>\<open>onPick\<close> makes for a file, with the value \<^verbatim>\<open>crypto.randomUUID()\<close>
  returned for it.
\<close>

definition new_item :: "string \<Rightarrow> File \<Rightarrow> Item" where
  "new_item uuid f =
     \<lparr>item_id = f_name f @ ''-'' @ show_nat (f_size f) @ ''-'' @ show_int (lastModified f) @ ''-'' @ uuid,
      item_file = f, status = Pending, statusCode = None, message = None\<rparr>"

text \<open>
  \<^verbatim>\<open>new Map(entries)\<close> and a run of \<^verbatim>\<open>map.set\<close>: a \<^verbatim>\<open>Map\<close> is the list of its
  entries in insertion order; setting a key that is there replaces the value in place,
  and a new key goes to the end.
\<close>

definition map_sets :: "('k \<times> 'v) list \<Rightarrow> ('k \<times> 'v) list \<Rightarrow> ('k \<times> 'v) list" where
  "map_sets m kvs = foldl (\<lambda>m (k, v). AList.update k v m) m kvs"

text \<open>
  The items \<^verbatim>\<open>onPick\<close> makes for the picked files,
  \<^verbatim>\<open>Array.from(list).map(f => ...)\<close>: the \<open>i\<close>-th file gets the \<open>i\<close>-th UUID drawn.
\<close>

definition new_items :: "(nat \<Rightarrow> string) \<Rightarrow> File list \<Rightarrow> Item list" where
  "new_items uuid fs = map (\<lambda>(i, f). new_item (uuid i) f) (enumerate 0 fs)"

text \<open>
  \<^verbatim>\<open>onPick\<close>, on the file list of the event (\<^verbatim>\<open>null\<close> is \<open>None\<close>), the UUIDs drawn
  for the files in order, and the item list: nothing for no file; otherwise the new items
  are set over the old ones in a map keyed by name and size.
\<close>

definition onPick :: "File list option \<Rightarrow> (nat \<Rightarrow> string) \<Rightarrow> Item list \<Rightarrow> Item list" where
  "onPick list uuid prev =
     (case list of
        None \<Rightarrow> prev
      | Some fs \<Rightarrow>
          if fs = [] then prev
          else
            let next = new_items uuid fs;
                m = map_sets [] (map (\<lambda>p. (file_key (item_file p), p)) prev)
            in map snd (map_sets m (map (\<lambda>n. (file_key (item_file n), n)) next)))"

text \<open>A sequence of pick events, from the first to the last.\<close>

fun picks :: "(File list option \<times> (nat \<Rightarrow> string)) list \<Rightarrow> Item list \<Rightarrow> Item list" where
  "picks [] items = items"
| "picks ((list, uuid) # evs) items = picks evs (onPick list uuid items)"

text \<open>Whether an item's file agrees with a file on name and size.\<close>

definition same_file :: "File \<Rightarrow> Item \<Rightarrow> bool" where
  "same_file f p = (f_name (item_file p) = f_name f \<and> f_size (item_file p) = f_size f)"

text \<open>\<^verbatim>\<open>removeOne(id)\<close> and \<^verbatim>\<open>setStatus(id, status, message)\<close>.\<close>

definition removeOne :: "string \<Rightarrow> Item list \<Rightarrow> Item list" where
  "removeOne i prev = filter (\<lambda>p. item_id p \<noteq> i) prev"

definition setStatus :: "string \<Rightarrow> Status \<Rightarrow> string option \<Rightarrow> Item list \<Rightarrow> Item list" where
  "setStatus i st msg prev =
     map (\<lambda>it. if item_id it = i then it\<lparr>status := st, message := msg\<rparr> else it) prev"

text \<open>
  The asynchronous branch of \<^verbatim>\<open>submitAll\<close>. Every item of the snapshot is first set
  to uploading; every upload then ends, in some order, accepted (processing, "Queued"),
  refused with a status line, or with a network error (error). After all of them comes
  the poll result. On a failure every item of the list is marked error with the failure
  message. On a success the payload is read as text (a string as it is, any other value
  through \<^verbatim>\<open>JSON.stringify\<close>), parsed and merged, and then every item of the list
  is marked done; \<^verbatim>\<open>JSON.parse\<close> is a parameter, \<open>None\<close> where it throws, and
  parsing the text of a value gives the value back. When the polling, the parsing or the
  merge throws, no further status is written.
\<close>

datatype upload_outcome = Accepted | Refused nat string | NetworkFailure

definition upload_end :: "Item \<Rightarrow> upload_outcome \<Rightarrow> Item list \<Rightarrow> Item list" where
  "upload_end it out prev =
     (case out of
        Accepted \<Rightarrow> setStatus (item_id it) Processing (Some ''Queued'') prev
      | Refused st txt \<Rightarrow> setStatus (item_id it) Error (Some (show_nat st @ '' '' @ txt)) prev
      | NetworkFailure \<Rightarrow> setStatus (item_id it) Error (Some ''Network error'') prev)"

fun uploads_start :: "Item list \<Rightarrow> Item list \<Rightarrow> Item list" where
  "uploads_start [] prev = prev"
| "uploads_start (it # its) prev = uploads_start its (setStatus (item_id it) Uploading None prev)"

fun uploads_end :: "(Item \<times> upload_outcome) list \<Rightarrow> Item list \<Rightarrow> Item list" where
  "uploads_end [] prev = prev"
| "uploads_end ((it, out) # rest) prev = uploads_end rest (upload_end it out prev)"

definition result_docs :: "(string \<Rightarrow> json option) \<Rightarrow> json \<Rightarrow> js_error + json" where
  "result_docs parse v =
     (case v of
        JStr text \<Rightarrow> (case parse text of None \<Rightarrow> Inl SyntaxError | Some docs \<Rightarrow> Inr docs)
      | _ \<Rightarrow> Inr v)"

definition poll_finish :: "(string \<Rightarrow> json option) \<Rightarrow> js_error + poll_result \<Rightarrow> Item list \<Rightarrow> Item list" where
  "poll_finish parse out prev =
     (case out of
        Inl err \<Rightarrow> prev
      | Inr (Err e) \<Rightarrow> map (\<lambda>i. i\<lparr>status := Error, message := Some e\<rparr>) prev
      | Inr (Ok v) \<Rightarrow>
          (case result_docs parse v of
             Inl err \<Rightarrow> prev
           | Inr docs \<Rightarrow>
               (case mergeSchemas docs of
                  Inl err \<Rightarrow> prev
                | Inr merged \<Rightarrow> map (\<lambda>i. i\<lparr>status := Done, message := Some ''Completed''\<rparr>) prev)))"

definition submit_uploads :: "Item list \<Rightarrow> (Item \<times> upload_outcome) list \<Rightarrow> Item list" where
  "submit_uploads items ends = uploads_end ends (uploads_start items items)"

definition submit_async :: "(string \<Rightarrow> json option) \<Rightarrow> Item list \<Rightarrow>
    (Item \<times> upload_outcome) list \<Rightarrow> js_error + poll_result \<Rightarrow> Item list" where
  "submit_async parse items ends out = poll_finish parse out (submit_uploads items ends)"

text \<open>Sample files and items.\<close>

definition report_pdf :: File where
  "report_pdf = \<lparr>f_name = ''report.pdf'', f_size = 1024, f_type = ''application/pdf'',
      lastModified = 1700\<rparr>"

definition notes_txt :: File where
  "notes_txt = \<lparr>f_name = ''notes.txt'', f_size = 12, f_type = ''text/plain'',
      lastModified = 1701\<rparr>"

definition report_again :: File where
  "report_again = \<lparr>f_name = ''report.pdf'', f_size = 1024, f_type = ''application/pdf'',
      lastModified = 1799\<rparr>"

definition failed_item :: Item where
  "failed_item = new_item ''u1'' report_pdf"

text \<open>The name and size of an item's file.\<close>

definition name_size :: "Item \<Rightarrow> string \<times> nat" where
  "name_size p = (f_name (item_file p), f_size (item_file p))"

definition uuid_u :: "nat \<Rightarrow> string" where
  "uuid_u i = (if i = 0 then ''u0'' else ''u1'')"

definition uuid_w :: "nat \<Rightarrow> string" where
  "uuid_w i = (if i = 0 then ''w0'' else if i = 1 then ''w1'' else ''w2'')"

definition readme_md :: File where
  "readme_md = \<lparr>f_name = ''readme.md'', f_size = 7, f_type = ''text/markdown'', lastModified = 1650\<rparr>"

definition uuid_v :: "nat \<Rightarrow> string" where
  "uuid_v i = ''v0''"

definition two_items :: "Item list" where
  "two_items = [new_item ''u0'' report_pdf, new_item ''u1'' notes_txt]"

text \<open>A parser that accepts no text, for runs whose payload is a structured value.\<close>

definition no_parse :: "string \<Rightarrow> json option" where
  "no_parse text = None"

definition refused_500 :: "(Item \<times> upload_outcome) list" where
  "refused_500 = [(failed_item, Refused 500 ''Internal Server Error'')]"

definition picked_twice :: "(File list option \<times> (nat \<Rightarrow> string)) list" where
  "picked_twice = [(Some [report_pdf, notes_txt], uuid_u), (None, uuid_u), (Some [report_again], uuid_v)]"

section \<open>Properties of the schema edit model\<close>

lemma forEach_key_length [simp]: "length (forEach_key mk ai idx as) = length as"
  by (induction as arbitrary: idx) auto

lemma forEach_key_nth:
  "j < length as \<Longrightarrow> forEach_key mk ai idx as ! j = (as ! j)\<lparr>IsKey := Some (mk \<and> int (idx + j) = ai)\<rparr>"
proof (induction as arbitrary: idx j)
  case Nil
  then show ?case by simp
next
  case (Cons a as)
  then show ?case by (cases j) (auto simp: algebra_simps)
qed

lemma forEach_key_False: "forEach_key False ai idx as = map (\<lambda>a. a\<lparr>IsKey := Some False\<rparr>) as"
  by (induction as arbitrary: idx) auto

lemma key_count_past: "ai < int i \<Longrightarrow> key_count (forEach_key mk ai i bs) = 0"
  by (induction bs arbitrary: i) (auto simp: key_count_def)

lemma key_count_forEach: "key_count (forEach_key mk ai idx as) \<le> 1"
proof (induction as arbitrary: idx)
  case Nil
  then show ?case by (simp add: key_count_def)
next
  case (Cons a as)
  show ?case
  proof (cases "mk \<and> int idx = ai")
    case True
    then have "ai < int (Suc idx)" by simp
    then have "key_count (forEach_key mk ai (Suc idx) as) = 0" by (rule key_count_past)
    then show ?thesis using True by (simp add: key_count_def)
  next
    case False
    with Cons.IH[of "Suc idx"] show ?thesis by (auto simp: key_count_def)
  qed
qed

lemma toggleKey_in_range:
  assumes "0 \<le> ei" "ei < int (length (entities sc))"
  shows "toggleKey ei ai mk (Some sc) =
     Inr (Some (sc\<lparr>entities := (entities sc)[nat ei :=
        (entities sc ! nat ei)\<lparr>attributes := forEach_key mk ai 0 (attributes (entities sc ! nat ei))\<rparr>]\<rparr>))"
  using assms by (simp add: toggleKey_def Let_def)

lemma toggleKey_Inr:
  assumes "toggleKey ei ai mk (Some sc) = Inr st'"
  shows "0 \<le> ei \<and> ei < int (length (entities sc)) \<and>
     st' = Some (sc\<lparr>entities := (entities sc)[nat ei :=
        (entities sc ! nat ei)\<lparr>attributes := forEach_key mk ai 0 (attributes (entities sc ! nat ei))\<rparr>]\<rparr>)"
  using assms by (auto simp: toggleKey_def Let_def split: if_splits)

lemma toggle_all_None: "toggle_all ops None = Inr None"
  by (induction ops) (auto simp: toggleKey_def)

lemma toggle_all_length:
  "toggle_all ops (Some sc) = Inr st' \<Longrightarrow> \<exists>sc'. st' = Some sc' \<and> length (entities sc') = length (entities sc)"
proof (induction ops arbitrary: sc)
  case Nil
  then show ?case by auto
next
  case (Cons op ops)
  obtain ei ai mk where op: "op = (ei, ai, mk)" by (cases op)
  from Cons.prems op obtain st1 where s1: "toggleKey ei ai mk (Some sc) = Inr st1"
    and rest: "toggle_all ops st1 = Inr st'"
    by (auto split: sum.splits)
  from toggleKey_Inr[OF s1] obtain sc1 where sc1: "st1 = Some sc1" "length (entities sc1) = length (entities sc)"
    by auto
  with Cons.IH[of sc1] rest show ?case by auto
qed

lemma toggle_all_append:
  "toggle_all (ops @ ops') st = (case toggle_all ops st of Inl err \<Rightarrow> Inl err | Inr st' \<Rightarrow> toggle_all ops' st')"
  by (induction ops arbitrary: st) (auto split: sum.splits)

lemma toggle_all_total:
  "\<forall>op \<in> set ops. 0 \<le> fst op \<and> fst op < int (length (entities sc)) \<Longrightarrow>
   \<exists>sc'. toggle_all ops (Some sc) = Inr (Some sc') \<and> length (entities sc') = length (entities sc)"
proof (induction ops arbitrary: sc)
  case Nil
  then show ?case by simp
next
  case (Cons op ops)
  obtain ei ai mk where op: "op = (ei, ai, mk)" by (cases op)
  with Cons.prems have r: "0 \<le> ei" "ei < int (length (entities sc))" by auto
  let ?sc1 = "sc\<lparr>entities := (entities sc)[nat ei :=
        (entities sc ! nat ei)\<lparr>attributes := forEach_key mk ai 0 (attributes (entities sc ! nat ei))\<rparr>]\<rparr>"
  have s1: "toggleKey ei ai mk (Some sc) = Inr (Some ?sc1)" by (rule toggleKey_in_range[OF r])
  have len: "length (entities ?sc1) = length (entities sc)" by simp
  from Cons.prems have "\<forall>op \<in> set ops. 0 \<le> fst op \<and> fst op < int (length (entities ?sc1))" by simp
  from Cons.IH[OF this] obtain sc' where "toggle_all ops (Some ?sc1) = Inr (Some sc')"
    "length (entities sc') = length (entities ?sc1)" by blast
  with s1 op len show ?case by simp
qed

lemma toggle_all_key_count:
  "toggle_all ops (Some sc) = Inr (Some sc') \<Longrightarrow> \<exists>op \<in> set ops. fst op = ei \<Longrightarrow> 0 \<le> ei \<Longrightarrow>
   key_count (attributes (entities sc' ! nat ei)) \<le> 1"
proof (induction ops arbitrary: sc' rule: rev_induct)
  case Nil
  then show ?case by simp
next
  case (snoc op ops)
  obtain ej ai mk where op: "op = (ej, ai, mk)" by (cases op)
  from snoc.prems(1) obtain st1 where pre: "toggle_all ops (Some sc) = Inr st1"
    and last: "toggleKey ej ai mk st1 = Inr (Some sc')"
    by (auto simp: toggle_all_append op split: sum.splits)
  from toggle_all_length[OF pre] obtain sc1 where sc1: "st1 = Some sc1" by auto
  from toggleKey_Inr[OF last[unfolded sc1]]
  have r: "0 \<le> ej" "ej < int (length (entities sc1))"
    and eq: "sc' = sc1\<lparr>entities := (entities sc1)[nat ej :=
        (entities sc1 ! nat ej)\<lparr>attributes := forEach_key mk ai 0 (attributes (entities sc1 ! nat ej))\<rparr>]\<rparr>"
    by auto
  show ?case
  proof (cases "ej = ei")
    case True
    with r eq show ?thesis using key_count_forEach[of mk ai 0] by simp
  next
    case False
    with snoc.prems(2) op have ex: "\<exists>op \<in> set ops. fst op = ei" by auto
    have "key_count (attributes (entities sc1 ! nat ei)) \<le> 1"
      using snoc.IH pre sc1 ex snoc.prems(3) by blast
    moreover from False r snoc.prems(3) have "nat ej \<noteq> nat ei" by simp
    ultimately show ?thesis using eq by simp
  qed
qed

text \<open>
  C4. \<^verbatim>\<open>removeEntity(i)\<close> changes nothing without a schema or when \<open>i\<close> is outside
  \<open>[0, entityCount)\<close>. Otherwise the entity at \<open>i\<close> is removed, and the selected index
  is 0 when no entity is left, and else lies between 0 and the new entity count minus one.
\<close>

theorem removeEntity_clamp:
  "(schema st = None \<longrightarrow> removeEntity idx st = st) \<and>
   (\<forall>sc. schema st = Some sc \<longrightarrow>
      (idx < 0 \<or> int (length (entities sc)) \<le> idx \<longrightarrow> removeEntity idx st = st) \<and>
      (0 \<le> idx \<and> idx < int (length (entities sc)) \<longrightarrow>
         (\<exists>sc'. schema (removeEntity idx st) = Some sc' \<and>
            entities sc' = splice1 (nat idx) (entities sc) \<and>
            length (entities sc') = length (entities sc) - 1 \<and>
            (entities sc' = [] \<longrightarrow> selectedEntity (removeEntity idx st) = 0) \<and>
            (entities sc' \<noteq> [] \<longrightarrow>
               0 \<le> selectedEntity (removeEntity idx st) \<and>
               selectedEntity (removeEntity idx st) \<le> int (length (entities sc')) - 1))))"
proof -
  have a: "schema st = None \<longrightarrow> removeEntity idx st = st"
    by (simp add: removeEntity_def)
  have b: "\<And>sc. schema st = Some sc \<Longrightarrow> idx < 0 \<or> int (length (entities sc)) \<le> idx \<Longrightarrow>
      removeEntity idx st = st"
    by (auto simp: removeEntity_def)
  have c: "\<exists>sc'. schema (removeEntity idx st) = Some sc' \<and>
            entities sc' = splice1 (nat idx) (entities sc) \<and>
            length (entities sc') = length (entities sc) - 1 \<and>
            (entities sc' = [] \<longrightarrow> selectedEntity (removeEntity idx st) = 0) \<and>
            (entities sc' \<noteq> [] \<longrightarrow>
               0 \<le> selectedEntity (removeEntity idx st) \<and>
               selectedEntity (removeEntity idx st) \<le> int (length (entities sc')) - 1)"
    if sc: "schema st = Some sc" and r: "0 \<le> idx" "idx < int (length (entities sc))" for sc
  proof -
    let ?es = "splice1 (nat idx) (entities sc)"
    from r have len: "length ?es = length (entities sc) - 1"
      by (simp add: splice1_def)
    show ?thesis
    proof (cases "?es = []")
      case True
      with sc r len show ?thesis
        by (simp add: removeEntity_def Let_def)
    next
      case False
      then have "0 < length ?es" by simp
      with sc r len False show ?thesis
        by (simp add: removeEntity_def Let_def)
    qed
  qed
  from a b c show ?thesis by blast
qed

theorem removeEntity_clamp_witness:
  "schema three_entity_state \<noteq> None \<and>
   removeEntity 3 three_entity_state = three_entity_state \<and>
   removeEntity (- 1) three_entity_state = three_entity_state \<and>
   selectedEntity (removeEntity 1 three_entity_state) \<in> {0, 1} \<and>
   selectedEntity (removeEntity 2 three_entity_state) = 1"
proof -
  let ?sc = "the (schema three_entity_state)"
  have s: "schema three_entity_state = Some ?sc" "length (entities ?sc) = 3"
    by (simp_all add: three_entity_state_def)
  from removeEntity_clamp[of three_entity_state 3] s
  have a: "removeEntity 3 three_entity_state = three_entity_state" by auto
  from removeEntity_clamp[of three_entity_state "- 1"] s
  have b: "removeEntity (- 1) three_entity_state = three_entity_state" by auto
  from removeEntity_clamp[of three_entity_state 1] s
  have c: "selectedEntity (removeEntity 1 three_entity_state) \<in> {0, 1}" by auto
  have d: "selectedEntity (removeEntity 2 three_entity_state) = 1"
    by (simp add: removeEntity_def three_entity_state_def splice1_def)
  from s a b c d show ?thesis by auto
qed

text \<open>
  C3. Let \<open>ei\<close> be an entity of the schema. After any run of \<^verbatim>\<open>toggleKey\<close> calls on
  entities of the schema, at least one of them on \<open>ei\<close>, the run has succeeded and at most
  one attribute of \<open>ei\<close> has its key flag set. A single call with makeKey = true leaves
  the flag set on the attribute at \<open>ai\<close> and on no other attribute of the entity.
\<close>

theorem toggleKey_at_most_one_key:
  assumes "0 \<le> ei" and "ei < int (length (entities sc))"
    and "\<forall>op \<in> set ops. 0 \<le> fst op \<and> fst op < int (length (entities sc))"
    and "\<exists>op \<in> set ops. fst op = ei"
  shows "(\<exists>sc'. toggle_all ops (Some sc) = Inr (Some sc') \<and>
            key_count (attributes (entities sc' ! nat ei)) \<le> 1) \<and>
         (\<exists>sc1. toggleKey ei ai True (Some sc) = Inr (Some sc1) \<and>
            length (attributes (entities sc1 ! nat ei)) = length (attributes (entities sc ! nat ei)) \<and>
            (\<forall>j < length (attributes (entities sc1 ! nat ei)).
               IsKey (attributes (entities sc1 ! nat ei) ! j) = Some (int j = ai)))"
proof
  from toggle_all_total[OF assms(3)] obtain sc' where
    run: "toggle_all ops (Some sc) = Inr (Some sc')" by blast
  from toggle_all_key_count[OF run assms(4) assms(1)]
  have "key_count (attributes (entities sc' ! nat ei)) \<le> 1" .
  with run show "\<exists>sc'. toggle_all ops (Some sc) = Inr (Some sc') \<and>
            key_count (attributes (entities sc' ! nat ei)) \<le> 1" by blast
next
  let ?as = "attributes (entities sc ! nat ei)"
  let ?sc1 = "sc\<lparr>entities := (entities sc)[nat ei :=
        (entities sc ! nat ei)\<lparr>attributes := forEach_key True ai 0 ?as\<rparr>]\<rparr>"
  have step: "toggleKey ei ai True (Some sc) = Inr (Some ?sc1)"
    by (rule toggleKey_in_range[OF assms(1,2)])
  from assms(1,2) have at: "attributes (entities ?sc1 ! nat ei) = forEach_key True ai 0 ?as"
    by simp
  have "\<forall>j < length ?as. IsKey (forEach_key True ai 0 ?as ! j) = Some (int j = ai)"
    by (simp add: forEach_key_nth)
  with step at show "\<exists>sc1. toggleKey ei ai True (Some sc) = Inr (Some sc1) \<and>
            length (attributes (entities sc1 ! nat ei)) = length (attributes (entities sc ! nat ei)) \<and>
            (\<forall>j < length (attributes (entities sc1 ! nat ei)).
               IsKey (attributes (entities sc1 ! nat ei) ! j) = Some (int j = ai))"
    by (metis forEach_key_length)
qed

theorem toggleKey_at_most_one_key_witness:
  "key_count (attributes (entities two_key_schema ! 0)) = 2 \<and>
   (\<exists>sc'. toggle_all [(0, 1, True), (0, 0, False), (0, 0, True)] (Some two_key_schema) = Inr (Some sc') \<and>
      key_count (attributes (entities sc' ! nat 0)) \<le> 1)"
proof -
  have len: "length (entities two_key_schema) = 1"
    by (simp add: two_key_schema_def)
  have k: "key_count (attributes (entities two_key_schema ! 0)) = 2"
    by (simp add: two_key_schema_def key_count_def attr_def)
  from toggleKey_at_most_one_key[of 0 two_key_schema "[(0, 1, True), (0, 0, False), (0, 0, True)]" 1] len
  have "\<exists>sc'. toggle_all [(0, 1, True), (0, 0, False), (0, 0, True)] (Some two_key_schema) = Inr (Some sc') \<and>
      key_count (attributes (entities sc' ! nat 0)) \<le> 1"
    by simp
  with k show ?thesis by simp
qed

text \<open>
  C8, as stated, fails: with makeKey = false the loop assigns false to the key flag of
  every attribute of the entity, not only to the one at \<open>ai\<close>. In a schema loaded with two
  key attributes, clearing the flag of the second one clears the flag of the first too.
\<close>

theorem toggleKey_false_counterexample:
  "IsKey (attributes (entities two_key_schema ! 0) ! 0) = Some True \<and>
   toggleKey 0 1 False (Some two_key_schema) =
     Inr (Some \<lparr>s_name = ''Connector'', version = ''1.0.0'',
       entities = [\<lparr>e_name = ''User'',
         attributes = [attr ''id'' TString False False, attr ''email'' TString False False]\<rparr>]\<rparr>)"
  by (simp add: toggleKey_def two_key_schema_def attr_def)

text \<open>
  C8, amended. When \<^verbatim>\<open>toggleKey\<close> is called with makeKey = false on an entity \<open>ei\<close> of
  the schema, the key flag of every attribute of that entity is set to false, whatever
  \<open>ai\<close> is; every other field of those attributes, every other entity, and the name and
  version of the schema are unchanged.
\<close>

theorem toggleKey_false_clears_entity:
  assumes "0 \<le> ei" and "ei < int (length (entities sc))"
  shows "toggleKey ei ai False (Some sc) =
     Inr (Some (sc\<lparr>entities := (entities sc)[nat ei :=
        (entities sc ! nat ei)\<lparr>attributes :=
           map (\<lambda>a. a\<lparr>IsKey := Some False\<rparr>) (attributes (entities sc ! nat ei))\<rparr>]\<rparr>))"
  using toggleKey_in_range[OF assms] by (simp add: forEach_key_False)

theorem toggleKey_false_clears_entity_witness:
  "toggleKey 0 0 False (Some two_key_schema) =
     Inr (Some (two_key_schema\<lparr>entities := (entities two_key_schema)[nat 0 :=
        (entities two_key_schema ! nat 0)\<lparr>attributes :=
           map (\<lambda>a. a\<lparr>IsKey := Some False\<rparr>) (attributes (entities two_key_schema ! nat 0))\<rparr>]\<rparr>))"
proof -
  have "(0::int) \<le> 0" and "0 < int (length (entities two_key_schema))"
    by (simp_all add: two_key_schema_def)
  then show ?thesis by (rule toggleKey_false_clears_entity)
qed

section \<open>Properties of the merge engine\<close>

lemma merge_entities_append:
  "merge_entities (xs @ ys) b =
     (case merge_entities xs b of Inl err \<Rightarrow> Inl err | Inr b' \<Rightarrow> merge_entities ys b')"
  by (induction xs arbitrary: b) (auto split: sum.splits)

lemma merge_docs_concat:
  "merge_docs ds b = merge_entities (concat (map entities_of ds)) b"
  by (induction ds arbitrary: b) (auto simp: merge_entities_append split: sum.splits)

lemma merge_entities_filter:
  "merge_entities (filter isEnt es) b = merge_entities es b"
  by (induction es arbitrary: b) (auto simp: merge_entity_def split: sum.splits)

lemma keyed_names: "keyed b \<Longrightarrow> map r_name (map snd b) = map fst b"
  by (induction b) (auto simp: keyed_def)

lemma set_alist_update: "set (AList.update k v al) \<subseteq> insert (k, v) (set al)"
  by (induction al) auto

lemma merge_entity_keyed:
  assumes "merge_entity e b = Inr b'" and "keyed b"
  shows "keyed b'"
proof (cases "isEnt e")
  case False
  with assms show ?thesis by (simp add: merge_entity_def)
next
  case True
  show ?thesis
  proof (cases "map_of b (ent_name e)")
    case None
    then have "ent_name e \<notin> fst ` set b" by (simp add: map_of_eq_None_iff)
    with assms True None show ?thesis by (auto simp: merge_entity_def keyed_def)
  next
    case (Some t)
    then have tin: "(ent_name e, t) \<in> set b" by (rule map_of_SomeD)
    with assms(2) have rn: "r_name t = ent_name e" by (auto simp: keyed_def)
    from assms True Some obtain hv where
      b': "b' = AList.update (ent_name e) (t\<lparr>r_attributes := fst (add_attrs (ent_attrs e) (r_attributes t, hv))\<rparr>) b"
      by (auto simp: merge_entity_def split: sum.splits)
    have "distinct (map fst b')" using assms(2) unfolding b' keyed_def
      by (simp add: distinct_update)
    moreover have "set b' \<subseteq> insert (ent_name e, t\<lparr>r_attributes := fst (add_attrs (ent_attrs e) (r_attributes t, hv))\<rparr>) (set b)"
      unfolding b' by (rule set_alist_update)
    then have "\<forall>(k, t) \<in> set b'. r_name t = k"
      using assms(2) rn unfolding keyed_def by fastforce
    ultimately show ?thesis by (simp add: keyed_def)
  qed
qed

lemma merge_entities_keyed:
  "merge_entities es b = Inr b' \<Longrightarrow> keyed b \<Longrightarrow> keyed b'"
proof (induction es arbitrary: b)
  case Nil
  then show ?case by simp
next
  case (Cons e es)
  then show ?case by (auto split: sum.splits dest: merge_entity_keyed)
qed

lemma names_of_Inr: "names_of as = Inr hv \<Longrightarrow> hv = map (get_prop_opt ''name'') as"
proof (induction as arbitrary: hv)
  case Nil
  then show ?case by simp
next
  case (Cons a as)
  then show ?case by (cases a) (auto split: sum.splits)
qed

lemma same_value_zero_str: "same_value_zero x (Some (JStr s)) = (x = Some (JStr s))"
proof (cases x)
  case None
  then show ?thesis by simp
next
  case (Some v)
  then show ?thesis by (cases v) auto
qed

lemma set_has_str: "set_has hv (Some (JStr s)) = (Some (JStr s) \<in> set hv)"
  by (auto simp: set_has_def list_ex_iff same_value_zero_str)

lemma str_names_append: "str_names (xs @ ys) = str_names xs @ str_names ys"
  by (simp add: str_names_def map_filter_def)

lemma str_names_single: "str_names [a] = (case str_name a of None \<Rightarrow> [] | Some s \<Rightarrow> [s])"
  by (simp add: str_names_def map_filter_def split: option.splits)

lemma str_name_Some: "str_name a = Some s \<longleftrightarrow> get_prop_opt ''name'' a = Some (JStr s)"
  by (auto simp: str_name_def split: option.splits json.splits)

lemma set_str_names: "set (str_names as) = {s. \<exists>a \<in> set as. str_name a = Some s}"
  by (force simp: str_names_def map_filter_def)

lemma in_str_names: "s \<in> set (str_names as) \<longleftrightarrow> Some (JStr s) \<in> get_prop_opt ''name'' ` set as"
proof
  assume "s \<in> set (str_names as)"
  then obtain a where "a \<in> set as" "str_name a = Some s" by (auto simp: set_str_names)
  then have "a \<in> set as" "get_prop_opt ''name'' a = Some (JStr s)" by (simp_all add: str_name_Some)
  then show "Some (JStr s) \<in> get_prop_opt ''name'' ` set as" by force
next
  assume "Some (JStr s) \<in> get_prop_opt ''name'' ` set as"
  then obtain a where "a \<in> set as" "get_prop_opt ''name'' a = Some (JStr s)" by force
  then have "a \<in> set as" "str_name a = Some s" by (simp_all add: str_name_Some)
  then show "s \<in> set (str_names as)" by (auto simp: set_str_names)
qed

lemma add_attrs_distinct:
  "distinct (str_names t) \<Longrightarrow> set hv = get_prop_opt ''name'' ` set t \<Longrightarrow>
   distinct (str_names (fst (add_attrs as (t, hv))))"
proof (induction as arbitrary: t hv)
  case Nil
  then show ?case by simp
next
  case (Cons a as)
  show ?case
  proof (cases "truthy_opt (get_prop_opt ''name'' a) \<and> \<not> set_has hv (get_prop_opt ''name'' a)")
    case False
    with Cons show ?thesis by auto
  next
    case True
    have d: "distinct (str_names (t @ [a]))"
    proof (cases "str_name a")
      case None
      with Cons.prems(1) show ?thesis by (simp add: str_names_append str_names_single)
    next
      case (Some s)
      then have n: "get_prop_opt ''name'' a = Some (JStr s)" by (simp add: str_name_Some)
      with True have "Some (JStr s) \<notin> set hv" by (simp add: set_has_str)
      with Cons.prems(2) have "s \<notin> set (str_names t)" by (simp add: in_str_names)
      with Cons.prems(1) Some show ?thesis by (simp add: str_names_append str_names_single)
    qed
    have h: "set (hv @ [get_prop_opt ''name'' a]) = get_prop_opt ''name'' ` set (t @ [a])"
      using Cons.prems(2) by auto
    from Cons.IH[OF d h] True show ?thesis by simp
  qed
qed

lemma merge_entities_attrs:
  "merge_entities es b = Inr b' \<Longrightarrow> attrs_ok b \<Longrightarrow> firsts_ok es b \<Longrightarrow> attrs_ok b'"
proof (induction es arbitrary: b)
  case Nil
  then show ?case by simp
next
  case (Cons e es)
  show ?case
  proof (cases "isEnt e")
    case False
    with Cons.prems have "merge_entities es b = Inr b'" "firsts_ok es b"
      by (auto simp: merge_entity_def firsts_ok_def)
    with Cons.IH Cons.prems(2) show ?thesis by blast
  next
    case True
    show ?thesis
    proof (cases "map_of b (ent_name e)")
      case None
      let ?b1 = "b @ [(ent_name e, \<lparr>r_name = ent_name e, r_attributes = ent_attrs e\<rparr>)]"
      from None have notin: "ent_name e \<notin> fst ` set b" by (simp add: map_of_eq_None_iff)
      from Cons.prems(1) True None have run: "merge_entities es ?b1 = Inr b'"
        by (simp add: merge_entity_def)
      from Cons.prems(3) notin True have "distinct (str_names (ent_attrs e))"
        by (simp add: firsts_ok_def first_named_def)
      with Cons.prems(2) have ok1: "attrs_ok ?b1" by (simp add: attrs_ok_def)
      have f1: "firsts_ok es ?b1"
        unfolding firsts_ok_def
      proof (intro allI impI)
        fix n e'
        assume n: "n \<notin> fst ` set ?b1" and f: "first_named n (filter isEnt es) = Some e'"
        from n have "n \<noteq> ent_name e" "n \<notin> fst ` set b" by auto
        with f True have "first_named n (filter isEnt (e # es)) = Some e'"
          by (auto simp: first_named_def)
        with Cons.prems(3) \<open>n \<notin> fst ` set b\<close> show "distinct (str_names (ent_attrs e'))"
          unfolding firsts_ok_def by blast
      qed
      from Cons.IH[OF run ok1 f1] show ?thesis .
    next
      case (Some t)
      then have tin: "(ent_name e, t) \<in> set b" by (rule map_of_SomeD)
      from Cons.prems(1) True Some obtain hv where hv: "names_of (r_attributes t) = Inr hv"
        and run: "merge_entities es (AList.update (ent_name e)
            (t\<lparr>r_attributes := fst (add_attrs (ent_attrs e) (r_attributes t, hv))\<rparr>) b) = Inr b'"
        by (auto simp: merge_entity_def split: sum.splits)
      let ?t1 = "t\<lparr>r_attributes := fst (add_attrs (ent_attrs e) (r_attributes t, hv))\<rparr>"
      let ?b1 = "AList.update (ent_name e) ?t1 b"
      from tin Cons.prems(2) have dt: "distinct (str_names (r_attributes t))"
        by (auto simp: attrs_ok_def)
      from names_of_Inr[OF hv] have "set hv = get_prop_opt ''name'' ` set (r_attributes t)" by simp
      from add_attrs_distinct[OF dt this] have "distinct (str_names (r_attributes ?t1))" by simp
      moreover have "set ?b1 \<subseteq> insert (ent_name e, ?t1) (set b)" by (rule set_alist_update)
      ultimately have ok1: "attrs_ok ?b1" using Cons.prems(2) unfolding attrs_ok_def by fastforce
      have keys: "fst ` set ?b1 = fst ` set b" using tin by (force simp: dom_update)
      have f1: "firsts_ok es ?b1"
        unfolding firsts_ok_def keys
      proof (intro allI impI)
        fix n e'
        assume n: "n \<notin> fst ` set b" and f: "first_named n (filter isEnt es) = Some e'"
        from n tin have "n \<noteq> ent_name e" by force
        with f True have "first_named n (filter isEnt (e # es)) = Some e'"
          by (auto simp: first_named_def)
        with Cons.prems(3) n show "distinct (str_names (ent_attrs e'))"
          unfolding firsts_ok_def by blast
      qed
      from Cons.IH[OF run ok1 f1] show ?thesis .
    qed
  qed
qed

lemma mergeSchemas_Inr:
  assumes "mergeSchemas input = Inr r"
  obtains b where "merge_entities (input_entities input) [] = Inr b" and "m_entities r = map snd b"
    and "m_name r = first_truthy ''name'' (docs_of input) (JStr ''Connector'')"
    and "m_version r = first_truthy ''version'' (docs_of input) (JStr ''1.0.0'')"
proof -
  from assms obtain b where b: "merge_docs (docs_of input) [] = Inr b"
    and r: "r = \<lparr>m_name = first_truthy ''name'' (docs_of input) (JStr ''Connector''),
               m_version = first_truthy ''version'' (docs_of input) (JStr ''1.0.0''),
               m_entities = map snd b\<rparr>"
    by (auto simp: mergeSchemas_def Let_def split: sum.splits)
  from b have "merge_entities (input_entities input) [] = Inr b"
    by (simp add: merge_docs_concat input_entities_def merge_entities_filter)
  with r that show ?thesis by simp
qed

lemma named_empty_iff: "named m t = [] \<longleftrightarrow> m \<notin> set (str_names t)"
  by (auto simp: named_def set_str_names filter_empty_conv)

lemma named_append: "named m (xs @ ys) = named m xs @ named m ys"
  by (simp add: named_def)

lemma add_attrs_named:
  "set hv = get_prop_opt ''name'' ` set t \<Longrightarrow>
   named m (fst (add_attrs as (t, hv))) =
     (if m \<in> set (str_names t) then named m t
      else if m \<noteq> [] then take 1 (named m as) else [])"
proof (induction as arbitrary: t hv)
  case Nil
  then show ?case by (simp add: named_empty_iff[symmetric]) (simp add: named_def)
next
  case (Cons a as)
  show ?case
  proof (cases "truthy_opt (get_prop_opt ''name'' a) \<and> \<not> set_has hv (get_prop_opt ''name'' a)")
    case True
    have h: "set (hv @ [get_prop_opt ''name'' a]) = get_prop_opt ''name'' ` set (t @ [a])"
      using Cons.prems by auto
    have step: "named m (fst (add_attrs (a # as) (t, hv))) =
        (if m \<in> set (str_names (t @ [a])) then named m (t @ [a])
         else if m \<noteq> [] then take 1 (named m as) else [])"
      using Cons.IH[OF h] True by simp
    show ?thesis
    proof (cases "str_name a = Some m")
      case am: True
      then have n: "get_prop_opt ''name'' a = Some (JStr m)" by (simp add: str_name_Some)
      with True have "m \<noteq> []" and "Some (JStr m) \<notin> set hv" by (simp_all add: set_has_str)
      with Cons.prems have notin: "m \<notin> set (str_names t)" by (simp add: in_str_names)
      then have "named m t = []" by (simp add: named_empty_iff)
      with step am notin \<open>m \<noteq> []\<close> show ?thesis
        by (simp add: str_names_append str_names_single named_append named_def)
    next
      case False
      with step show ?thesis
        by (auto simp: str_names_append str_names_single named_append named_def split: option.splits)
    qed
  next
    case False
    then have step: "named m (fst (add_attrs (a # as) (t, hv))) =
        (if m \<in> set (str_names t) then named m t
         else if m \<noteq> [] then take 1 (named m as) else [])"
      using Cons.IH[OF Cons.prems] by auto
    show ?thesis
    proof (cases "str_name a = Some m")
      case am: True
      then have n: "get_prop_opt ''name'' a = Some (JStr m)" by (simp add: str_name_Some)
      with False have "m = [] \<or> Some (JStr m) \<in> set hv" by (auto simp: set_has_str)
      with Cons.prems have "m = [] \<or> m \<in> set (str_names t)" by (simp add: in_str_names)
      with step show ?thesis by auto
    next
      case False
      with step show ?thesis by (simp add: named_def)
    qed
  qed
qed

lemma add_occ_named:
  "named m (add_occ t as) =
     (if m \<in> set (str_names t) then named m t
      else if m \<noteq> [] then take 1 (named m as) else [])"
  unfolding add_occ_def by (rule add_attrs_named) simp

lemma foldl_add_occ_named:
  "named m (foldl add_occ t os) =
     (if m \<in> set (str_names t) then named m t
      else if m \<noteq> [] then take 1 (named m (concat os)) else [])"
proof (induction os arbitrary: t)
  case Nil
  then show ?case by (simp add: named_empty_iff[symmetric]) (simp add: named_def)
next
  case (Cons o1 os)
  let ?t1 = "add_occ t o1"
  have IH: "named m (foldl add_occ ?t1 os) =
     (if m \<in> set (str_names ?t1) then named m ?t1
      else if m \<noteq> [] then take 1 (named m (concat os)) else [])" by (rule Cons.IH)
  have st: "named m ?t1 = (if m \<in> set (str_names t) then named m t
      else if m \<noteq> [] then take 1 (named m o1) else [])" by (rule add_occ_named)
  show ?case
  proof (cases "m \<in> set (str_names t)")
    case True
    with st have "named m ?t1 = named m t" by simp
    moreover from this True have "m \<in> set (str_names ?t1)"
      by (metis named_empty_iff)
    ultimately show ?thesis using IH True by simp
  next
    case False
    show ?thesis
    proof (cases "m = []")
      case True
      with st False have "named m ?t1 = []" by simp
      then have "m \<notin> set (str_names ?t1)" by (simp add: named_empty_iff)
      with IH True False show ?thesis by simp
    next
      case mne: False
      with st False have s1: "named m ?t1 = take 1 (named m o1)" by simp
      show ?thesis
      proof (cases "named m o1 = []")
        case True
        with s1 have "m \<notin> set (str_names ?t1)" by (simp add: named_empty_iff)
        with IH mne False True show ?thesis by (simp add: named_append)
      next
        case ne: False
        with s1 have "named m ?t1 \<noteq> []" by simp
        then have "m \<in> set (str_names ?t1)" by (simp add: named_empty_iff)
        moreover from ne have "Suc 0 \<le> length (named m o1)" by (cases "named m o1") simp_all
        ultimately show ?thesis using IH s1 mne False ne by (simp add: named_append)
      qed
    qed
  qed
qed

lemma find_in_set: "find P xs = Some x \<Longrightarrow> x \<in> set xs"
  by (induction xs) (auto split: if_splits)

lemma input_entities_AB:
  "input_entities (JArr [schema_json docA, schema_json docB]) =
     map ent_json (entities docA @ entities docB)"
  by (simp add: input_entities_def docs_of_def schema_json_def isSchema_def entities_of_def
      docA_def docB_def isEnt_def ent_json_def)

lemma names_of_total: "JNull \<notin> set as \<Longrightarrow> names_of as = Inr (map (get_prop_opt ''name'') as)"
proof (induction as)
  case Nil
  then show ?case by simp
next
  case (Cons a as)
  then show ?case by (cases a) auto
qed

lemma add_attrs_no_null:
  "JNull \<notin> set t \<Longrightarrow> JNull \<notin> set (fst (add_attrs as (t, hv)))"
proof (induction as arbitrary: t hv)
  case Nil
  then show ?case by simp
next
  case (Cons a as)
  show ?case
  proof (cases "truthy_opt (get_prop_opt ''name'' a) \<and> \<not> set_has hv (get_prop_opt ''name'' a)")
    case True
    then have "a \<noteq> JNull" by auto
    with Cons.prems have "JNull \<notin> set (t @ [a])" by simp
    from Cons.IH[OF this] True show ?thesis by simp
  next
    case False
    with Cons show ?thesis by auto
  qed
qed

lemma merge_entity_step:
  assumes "isEnt e" and "map_of b (ent_name e) = Some t" and "JNull \<notin> set (r_attributes t)"
  shows "merge_entity e b =
     Inr (AList.update (ent_name e) (t\<lparr>r_attributes := add_occ (r_attributes t) (ent_attrs e)\<rparr>) b)"
  using assms by (simp add: merge_entity_def names_of_total add_occ_def)

lemma merge_entity_new:
  assumes "isEnt e" and "map_of b (ent_name e) = None"
  shows "merge_entity e b =
     Inr (b @ [(ent_name e, \<lparr>r_name = ent_name e, r_attributes = ent_attrs e\<rparr>)])"
  using assms by (simp add: merge_entity_def)

lemma merge_entity_skip: "\<not> isEnt e \<Longrightarrow> merge_entity e b = Inr b"
  by (simp add: merge_entity_def)

lemma add_occ_no_null: "JNull \<notin> set t \<Longrightarrow> JNull \<notin> set (add_occ t as)"
  unfolding add_occ_def by (rule add_attrs_no_null)

lemma merge_entity_total:
  assumes "no_null b" and "isEnt e \<longrightarrow> JNull \<notin> set (ent_attrs e)"
  shows "\<exists>b'. merge_entity e b = Inr b' \<and> no_null b'"
proof (cases "isEnt e")
  case False
  with assms show ?thesis by (simp add: merge_entity_skip)
next
  case True
  show ?thesis
  proof (cases "map_of b (ent_name e)")
    case None
    from merge_entity_new[OF True None] assms True show ?thesis
      by (auto simp: no_null_def)
  next
    case (Some t)
    then have "(ent_name e, t) \<in> set b" by (rule map_of_SomeD)
    with assms(1) have nn: "JNull \<notin> set (r_attributes t)" by (auto simp: no_null_def)
    let ?t1 = "t\<lparr>r_attributes := add_occ (r_attributes t) (ent_attrs e)\<rparr>"
    have "set (AList.update (ent_name e) ?t1 b) \<subseteq> insert (ent_name e, ?t1) (set b)"
      by (rule set_alist_update)
    moreover have "JNull \<notin> set (r_attributes ?t1)" using add_occ_no_null[OF nn] by simp
    ultimately have "no_null (AList.update (ent_name e) ?t1 b)"
      using assms(1) unfolding no_null_def by fastforce
    with merge_entity_step[OF True Some nn] show ?thesis by simp
  qed
qed

lemma merge_entities_total:
  "no_null b \<Longrightarrow> \<forall>e \<in> set es. isEnt e \<longrightarrow> JNull \<notin> set (ent_attrs e) \<Longrightarrow>
   \<exists>b'. merge_entities es b = Inr b' \<and> no_null b'"
proof (induction es arbitrary: b)
  case Nil
  then show ?case by simp
next
  case (Cons e es)
  from Cons.prems have "isEnt e \<longrightarrow> JNull \<notin> set (ent_attrs e)" by simp
  from merge_entity_total[OF Cons.prems(1) this] obtain b1 where
    b1: "merge_entity e b = Inr b1" "no_null b1" by blast
  from Cons.prems(2) have "\<forall>e \<in> set es. isEnt e \<longrightarrow> JNull \<notin> set (ent_attrs e)" by simp
  from Cons.IH[OF b1(2) this] b1(1) show ?case by simp
qed

lemma occ_Cons:
  "occ n (e # es) = (if isEnt e \<and> ent_name e = n then ent_attrs e # occ n es else occ n es)"
  by (simp add: occ_def)

lemma merge_entities_target:
  "merge_entities es b = Inr b' \<Longrightarrow> no_null b \<Longrightarrow>
   \<forall>e \<in> set es. isEnt e \<longrightarrow> JNull \<notin> set (ent_attrs e) \<Longrightarrow>
   map_of b' n =
     (case map_of b n of
        Some t \<Rightarrow> Some (t\<lparr>r_attributes := foldl add_occ (r_attributes t) (occ n es)\<rparr>)
      | None \<Rightarrow> (case occ n es of [] \<Rightarrow> None
                 | o1 # os \<Rightarrow> Some \<lparr>r_name = n, r_attributes = foldl add_occ o1 os\<rparr>))"
proof (induction es arbitrary: b)
  case Nil
  then show ?case by (auto simp: occ_def split: option.splits)
next
  case (Cons e es)
  from Cons.prems(3) have rest: "\<forall>e \<in> set es. isEnt e \<longrightarrow> JNull \<notin> set (ent_attrs e)" by simp
  show ?case
  proof (cases "isEnt e")
    case False
    with Cons.prems(1) have "merge_entities es b = Inr b'" by (simp add: merge_entity_skip)
    from Cons.IH[OF this Cons.prems(2) rest] False show ?thesis
      by (auto simp: occ_Cons split: option.splits)
  next
    case True
    with Cons.prems(3) have en: "JNull \<notin> set (ent_attrs e)" by simp
    show ?thesis
    proof (cases "map_of b (ent_name e)")
      case None
      let ?b1 = "b @ [(ent_name e, \<lparr>r_name = ent_name e, r_attributes = ent_attrs e\<rparr>)]"
      from Cons.prems(1) merge_entity_new[OF True None] have run: "merge_entities es ?b1 = Inr b'" by simp
      from Cons.prems(2) en have nn: "no_null ?b1" by (auto simp: no_null_def)
      have mo: "map_of ?b1 n = (if n = ent_name e \<and> map_of b n = None
           then Some \<lparr>r_name = ent_name e, r_attributes = ent_attrs e\<rparr> else map_of b n)"
        using None by (auto simp: map_add_def split: option.splits)
      from Cons.IH[OF run nn rest] mo None True show ?thesis
        by (auto simp: occ_Cons split: option.splits)
    next
      case (Some t)
      then have "(ent_name e, t) \<in> set b" by (rule map_of_SomeD)
      with Cons.prems(2) have tn: "JNull \<notin> set (r_attributes t)" by (auto simp: no_null_def)
      let ?t1 = "t\<lparr>r_attributes := add_occ (r_attributes t) (ent_attrs e)\<rparr>"
      let ?b1 = "AList.update (ent_name e) ?t1 b"
      from Cons.prems(1) merge_entity_step[OF True Some tn] have run: "merge_entities es ?b1 = Inr b'" by simp
      from merge_entity_total[OF Cons.prems(2), of e] en merge_entity_step[OF True Some tn]
      have nn: "no_null ?b1" by auto
      have mo: "map_of ?b1 n = (if n = ent_name e then Some ?t1 else map_of b n)"
        by (simp add: update_conv')
      from Cons.IH[OF run nn rest] mo Some True show ?thesis
        by (auto simp: occ_Cons split: option.splits)
    qed
  qed
qed

lemma isEnt_ent_json [simp]: "isEnt (ent_json e)"
  by (simp add: isEnt_def ent_json_def)

lemma ent_name_ent_json [simp]: "ent_name (ent_json e) = e_name e"
  by (simp add: ent_name_def ent_json_def)

lemma ent_attrs_ent_json [simp]: "ent_attrs (ent_json e) = map attr_json (attributes e)"
  by (simp add: ent_attrs_def ent_json_def)

lemma isSchema_schema_json [simp]: "isSchema (schema_json s)"
  by (simp add: isSchema_def schema_json_def)

lemma entities_of_schema_json [simp]: "entities_of (schema_json s) = map ent_json (entities s)"
  by (simp add: entities_of_def schema_json_def)

lemma name_attr_json [simp]: "get_prop_opt ''name'' (attr_json a) = Some (JStr (a_name a))"
  by (simp add: attr_json_def)

lemma str_name_attr_json [simp]: "str_name (attr_json a) = Some (a_name a)"
  by (simp add: str_name_def)

lemma attr_json_not_null [simp]: "attr_json a \<noteq> JNull" "JNull \<noteq> attr_json a"
  by (simp_all add: attr_json_def)

lemma no_null_attr_json [simp]: "JNull \<notin> set (map attr_json as)"
  by auto

lemma input_entities_typed:
  "input_entities (JArr (map schema_json ds)) = map ent_json (concat (map entities ds))"
  by (induction ds) (auto simp: input_entities_def docs_of_def filter_id_conv map_concat)

lemma named_attr_json: "named m (map attr_json as) = map attr_json (filter (\<lambda>a. a_name a = m) as)"
  by (induction as) (auto simp: named_def)

lemma named_concat: "named m (concat xss) = concat (map (named m) xss)"
  by (induction xss) (auto simp: named_def)

lemma occ_typed:
  "occ n (map ent_json es) = map (\<lambda>e. map attr_json (attributes e)) (filter (\<lambda>e. e_name e = n) es)"
  by (induction es) (auto simp: occ_def)

lemma occ_append: "occ n (xs @ ys) = occ n xs @ occ n ys"
  by (simp add: occ_def)

lemma named_occ_typed:
  "named m (concat (occ n (map ent_json (entities d)))) = map attr_json (defs_in_doc d n m)"
proof -
  have "concat (occ n (map ent_json es)) =
      map attr_json (concat (map attributes (filter (\<lambda>e. e_name e = n) es)))" for es
    by (induction es) (auto simp: occ_def)
  then show ?thesis by (simp add: defs_in_doc_def named_attr_json)
qed

lemma find_filter: "find P xs = Some x \<Longrightarrow> \<exists>ys. filter P xs = x # ys"
  by (induction xs) (auto split: if_splits)

lemma mergeSchemas_from_entities:
  assumes "merge_entities (input_entities input) [] = Inr b"
  shows "mergeSchemas input =
     Inr \<lparr>m_name = first_truthy ''name'' (docs_of input) (JStr ''Connector''),
          m_version = first_truthy ''version'' (docs_of input) (JStr ''1.0.0''),
          m_entities = map snd b\<rparr>"
  using assms
  by (simp add: mergeSchemas_def merge_docs_concat input_entities_def merge_entities_filter Let_def)

lemma add_attrs_known:
  "\<forall>a \<in> set as. \<exists>s. get_prop_opt ''name'' a = Some (JStr s) \<and> (s = [] \<or> Some (JStr s) \<in> set hv) \<Longrightarrow>
   add_attrs as (t, hv) = (t, hv)"
proof (induction as)
  case Nil
  then show ?case by simp
next
  case (Cons a as)
  from Cons.prems obtain s where s: "get_prop_opt ''name'' a = Some (JStr s)"
    "s = [] \<or> Some (JStr s) \<in> set hv" by auto
  then have "\<not> (truthy_opt (get_prop_opt ''name'' a) \<and> \<not> set_has hv (get_prop_opt ''name'' a))"
    by (auto simp: set_has_str)
  then have "add_attrs (a # as) (t, hv) = add_attrs as (t, hv)" by auto
  moreover from Cons have "add_attrs as (t, hv) = (t, hv)" by simp
  ultimately show ?case by simp
qed

lemma add_occ_self: "add_occ (map attr_json as) (map attr_json as) = map attr_json as"
  unfolding add_occ_def
  by (subst add_attrs_known) (auto simp: image_iff)

lemma merge_entities_fresh:
  "\<forall>e \<in> set es. isEnt e \<Longrightarrow> distinct (map ent_name es) \<Longrightarrow>
   \<forall>e \<in> set es. ent_name e \<notin> fst ` set b \<Longrightarrow>
   merge_entities es b =
     Inr (b @ map (\<lambda>e. (ent_name e, \<lparr>r_name = ent_name e, r_attributes = ent_attrs e\<rparr>)) es)"
proof (induction es arbitrary: b)
  case Nil
  then show ?case by simp
next
  case (Cons e es)
  from Cons.prems have en: "isEnt e" and none: "map_of b (ent_name e) = None"
    by (simp_all add: map_of_eq_None_iff)
  let ?b1 = "b @ [(ent_name e, \<lparr>r_name = ent_name e, r_attributes = ent_attrs e\<rparr>)]"
  have "\<forall>e' \<in> set es. ent_name e' \<notin> fst ` set ?b1"
  proof
    fix e' assume e': "e' \<in> set es"
    then have "ent_name e' \<in> ent_name ` set es" by (rule imageI)
    with Cons.prems(2) have "ent_name e' \<noteq> ent_name e" by (metis distinct.simps(2) list.simps(9) set_map)
    moreover from e' Cons.prems(3) have "ent_name e' \<notin> fst ` set b" by simp
    ultimately show "ent_name e' \<notin> fst ` set ?b1" by simp
  qed
  with Cons.IH[of ?b1] Cons.prems have
    "merge_entities es ?b1 =
       Inr (?b1 @ map (\<lambda>e. (ent_name e, \<lparr>r_name = ent_name e, r_attributes = ent_attrs e\<rparr>)) es)"
    by simp
  with merge_entity_new[OF en none] show ?case by simp
qed

lemma merge_entities_again:
  "\<forall>e \<in> set es. map_of b (e_name e) = Some (raw_entity e) \<Longrightarrow>
   merge_entities (map ent_json es) b = Inr b"
proof (induction es)
  case Nil
  then show ?case by simp
next
  case (Cons e es)
  from Cons.prems have mo: "map_of b (ent_name (ent_json e)) = Some (raw_entity e)" by simp
  have nn: "JNull \<notin> set (r_attributes (raw_entity e))" by (auto simp: raw_entity_def)
  have "merge_entity (ent_json e) b =
      Inr (AList.update (e_name e)
        ((raw_entity e)\<lparr>r_attributes := add_occ (r_attributes (raw_entity e)) (ent_attrs (ent_json e))\<rparr>) b)"
    using merge_entity_step[OF isEnt_ent_json mo nn] by simp
  also have "(raw_entity e)\<lparr>r_attributes := add_occ (r_attributes (raw_entity e)) (ent_attrs (ent_json e))\<rparr>
      = raw_entity e"
    by (simp add: raw_entity_def add_occ_self)
  also have "AList.update (e_name e) (raw_entity e) b = b"
    using mo by (simp add: update_triv)
  finally have "merge_entity (ent_json e) b = Inr b" .
  with Cons show ?case by simp
qed

lemma first_truthy_typed:
  "s_name s \<noteq> [] \<Longrightarrow> first_truthy ''name'' (schema_json s # ds) dflt = JStr (s_name s)"
  "version s \<noteq> [] \<Longrightarrow> first_truthy ''version'' (schema_json s # ds) dflt = JStr (version s)"
  by (simp_all add: first_truthy_def schema_json_def)

text \<open>
  C1, as stated, fails: the entity that introduces a name is copied with its attribute
  array as it is, so two attributes of one input entity with the same name both reach the
  result.
\<close>

theorem mergeSchemas_duplicate_counterexample:
  "mergeSchemas (schema_json dup_schema) = Inr (merged_of dup_schema) \<and>
   str_names (r_attributes (hd (m_entities (merged_of dup_schema)))) = [''email'', ''email'']"
proof -
  have "mergeSchemas (schema_json dup_schema) = Inr (merged_of dup_schema)"
    by (simp add: mergeSchemas_def docs_of_def schema_json_def isSchema_def dup_schema_def
        entities_of_def merge_entity_def isEnt_def ent_json_def ent_name_def ent_attrs_def
        merged_of_def raw_entity_def first_truthy_def)
  moreover have "str_names (r_attributes (hd (m_entities (merged_of dup_schema)))) = [''email'', ''email'']"
    by (simp add: merged_of_def dup_schema_def raw_entity_def str_names_def map_filter_def
        str_name_def attr_json_def attr_def)
  ultimately show ?thesis by simp
qed

text \<open>
  C1, amended. \<^verbatim>\<open>mergeSchemas\<close> returns on every input in which no entity has
  \<^verbatim>\<open>null\<close> among its attributes. For every input on which it returns, no two
  entities of the result have the same name; and if, for every entity name, the first
  input entity with that name has no two attributes with the same name, then no entity of
  the result has two attributes with the same name. (Names are compared as strings; an
  attribute whose name is not a string has none.)
\<close>

theorem mergeSchemas_unique_names:
  "((\<forall>e \<in> set (input_entities input). JNull \<notin> set (ent_attrs e)) \<longrightarrow>
      (\<exists>r. mergeSchemas input = Inr r)) \<and>
   (\<forall>r. mergeSchemas input = Inr r \<longrightarrow>
      distinct (map r_name (m_entities r)) \<and>
      ((\<forall>n e. first_named n (input_entities input) = Some e \<longrightarrow>
          distinct (str_names (ent_attrs e)))
       \<longrightarrow> (\<forall>E \<in> set (m_entities r). distinct (str_names (r_attributes E)))))"
proof (intro conjI allI impI)
  assume "\<forall>e \<in> set (input_entities input). JNull \<notin> set (ent_attrs e)"
  then have nn: "\<forall>e \<in> set (input_entities input). isEnt e \<longrightarrow> JNull \<notin> set (ent_attrs e)"
    by simp
  have n0: "no_null []" by (simp add: no_null_def)
  from merge_entities_total[OF n0 nn] obtain b where
    "merge_entities (input_entities input) [] = Inr b" by blast
  from mergeSchemas_from_entities[OF this] show "\<exists>r. mergeSchemas input = Inr r" by blast
next
  fix r
  assume run: "mergeSchemas input = Inr r"
  from run obtain b where b: "merge_entities (input_entities input) [] = Inr b"
    and r: "m_entities r = map snd b" by (rule mergeSchemas_Inr)
  have k0: "keyed []" by (simp add: keyed_def)
  from merge_entities_keyed[OF b k0] have kb: "keyed b" .
  have "map r_name (m_entities r) = map fst b"
    by (simp only: r keyed_names[OF kb])
  with kb show "distinct (map r_name (m_entities r))"
    by (simp add: keyed_def)
next
  fix r
  assume run: "mergeSchemas input = Inr r"
    and h: "\<forall>n e. first_named n (input_entities input) = Some e \<longrightarrow>
      distinct (str_names (ent_attrs e))"
  from run obtain b where b: "merge_entities (input_entities input) [] = Inr b"
    and r: "m_entities r = map snd b" by (rule mergeSchemas_Inr)
  have "firsts_ok (input_entities input) []"
    using h by (simp add: firsts_ok_def input_entities_def)
  moreover have "attrs_ok []" by (simp add: attrs_ok_def)
  ultimately have "attrs_ok b" using merge_entities_attrs[OF b] by blast
  with r show "\<forall>E \<in> set (m_entities r). distinct (str_names (r_attributes E))"
    by (auto simp: attrs_ok_def)
qed

theorem mergeSchemas_unique_names_witness:
  "mergeSchemas (JArr [schema_json docA, schema_json docB]) = Inr merged_AB \<and>
   distinct (map r_name (m_entities merged_AB)) \<and>
   distinct (str_names (r_attributes (m_entities merged_AB ! 0))) \<and>
   distinct (str_names (r_attributes (m_entities merged_AB ! 1)))"
proof -
  let ?input = "JArr [schema_json docA, schema_json docB]"
  have run: "mergeSchemas ?input = Inr merged_AB"
    by (simp add: mergeSchemas_def docs_of_def schema_json_def isSchema_def docA_def docB_def
        entities_of_def merge_entity_def isEnt_def ent_json_def ent_name_def ent_attrs_def
        merged_AB_def first_truthy_def attr_json_def attr_def set_has_def)
  have firsts: "\<forall>n e. first_named n (input_entities ?input) = Some e \<longrightarrow>
      distinct (str_names (ent_attrs e))"
  proof (intro allI impI)
    fix n e
    assume "first_named n (input_entities ?input) = Some e"
    then have "e \<in> set (map ent_json (entities docA @ entities docB))"
      unfolding input_entities_AB first_named_def by (rule find_in_set)
    then show "distinct (str_names (ent_attrs e))"
      by (auto simp: docA_def docB_def ent_json_def ent_attrs_def str_names_def
          map_filter_def str_name_def attr_json_def attr_def)
  qed
  note t = mergeSchemas_unique_names[of ?input, THEN conjunct2, rule_format, OF run]
  from t have "distinct (map r_name (m_entities merged_AB))" by (rule conjunct1)
  moreover from t[THEN conjunct2] firsts
  have all: "\<forall>E \<in> set (m_entities merged_AB). distinct (str_names (r_attributes E))"
    by (rule mp)
  moreover have "m_entities merged_AB ! 0 \<in> set (m_entities merged_AB)"
    and "m_entities merged_AB ! 1 \<in> set (m_entities merged_AB)"
    by (simp_all add: merged_AB_def)
  ultimately show ?thesis using run by blast
qed

text \<open>
  C2, as stated, fails for an attribute with the empty name: the guard
  \<^verbatim>\<open>a?.name && ...\<close> drops it from every entity but the one that introduces the entity
  name. Here the first document defines \<^verbatim>\<open>User\<close> twice, its second definition carries
  the attribute, and the merged entity keeps no definition of it at all.
\<close>

theorem mergeSchemas_first_wins_counterexample:
  "mergeSchemas (JArr [schema_json unnamed_first, schema_json unnamed_second]) =
     Inr \<lparr>m_name = JStr ''A'', m_version = JStr ''1.0.0'',
          m_entities = [\<lparr>r_name = ''User'',
                         r_attributes = [attr_json (attr ''id'' TString False True)]\<rparr>]\<rparr> \<and>
   defs_in_doc unnamed_first ''User'' [] = [attr [] TInt False False] \<and>
   defs_in_doc unnamed_second ''User'' [] = [attr [] TString False False]"
proof -
  have "mergeSchemas (JArr [schema_json unnamed_first, schema_json unnamed_second]) =
     Inr \<lparr>m_name = JStr ''A'', m_version = JStr ''1.0.0'',
          m_entities = [\<lparr>r_name = ''User'',
                         r_attributes = [attr_json (attr ''id'' TString False True)]\<rparr>]\<rparr>"
    by (simp add: mergeSchemas_def docs_of_def schema_json_def isSchema_def unnamed_first_def
        unnamed_second_def entities_of_def merge_entity_def isEnt_def ent_json_def ent_name_def
        ent_attrs_def first_truthy_def attr_json_def attr_def set_has_def)
  moreover have "defs_in_doc unnamed_first ''User'' [] = [attr [] TInt False False]"
    by (simp add: defs_in_doc_def unnamed_first_def attr_def)
  moreover have "defs_in_doc unnamed_second ''User'' [] = [attr [] TString False False]"
    by (simp add: defs_in_doc_def unnamed_second_def attr_def)
  ultimately show ?thesis by simp
qed

text \<open>
  C2, amended. Let the first of two input documents define an entity \<open>n\<close> carrying an
  attribute \<open>m\<close>, where \<open>m\<close> is not empty or the entity is the document's first one
  named \<open>n\<close>. Then, whatever the second document defines, the merge returns, the merged
  entity \<open>n\<close> has an attribute named \<open>m\<close>, and its attributes named \<open>m\<close> are the first
  ones of the first document's definitions of \<open>m\<close> for \<open>n\<close>: every attribute of that
  name from the later document is dropped. When the first document defines the attribute
  once, the merged entity keeps exactly that definition.
\<close>

theorem mergeSchemas_first_wins:
  assumes "e1 \<in> set (entities d1)" and "e_name e1 = n"
    and "a1 \<in> set (attributes e1)" and "a_name a1 = m"
    and "m \<noteq> [] \<or> find (\<lambda>e. e_name e = n) (entities d1) = Some e1"
  shows "\<exists>r E. mergeSchemas (JArr [schema_json d1, schema_json d2]) = Inr r \<and>
           E \<in> set (m_entities r) \<and> r_name E = n \<and>
           named m (r_attributes E) \<noteq> [] \<and>
           named m (r_attributes E) =
             take (length (named m (r_attributes E))) (map attr_json (defs_in_doc d1 n m))"
proof -
  let ?input = "JArr [schema_json d1, schema_json d2]"
  let ?es = "map ent_json (entities d1 @ entities d2)"
  have ie: "input_entities ?input = ?es"
    using input_entities_typed[of "[d1, d2]"] by simp
  have nn: "\<forall>e \<in> set ?es. isEnt e \<longrightarrow> JNull \<notin> set (ent_attrs e)" by auto
  have n0: "no_null []" by (simp add: no_null_def)
  from merge_entities_total[OF n0 nn] obtain b where b: "merge_entities ?es [] = Inr b" by blast
  let ?r = "\<lparr>m_name = first_truthy ''name'' (docs_of ?input) (JStr ''Connector''),
          m_version = first_truthy ''version'' (docs_of ?input) (JStr ''1.0.0''),
          m_entities = map snd b\<rparr>"
  from b ie have run: "mergeSchemas ?input = Inr ?r"
    by (simp only: mergeSchemas_from_entities)
  \<comment> \<open>the occurrences of the entity name\<close>
  let ?occ1 = "occ n (map ent_json (entities d1))"
  let ?occ2 = "occ n (map ent_json (entities d2))"
  from assms(1,2) have "filter (\<lambda>e. e_name e = n) (entities d1) \<noteq> []"
    by (auto simp: filter_empty_conv)
  then have "?occ1 \<noteq> []" by (simp add: occ_typed)
  then obtain o1 os1 where occ1: "?occ1 = o1 # os1" by (cases ?occ1) auto
  have occ_all: "occ n ?es = o1 # (os1 @ ?occ2)"
    using occ1 by (simp add: occ_append)
  let ?E = "\<lparr>r_name = n, r_attributes = foldl add_occ o1 (os1 @ ?occ2)\<rparr>"
  from merge_entities_target[OF b n0 nn, of n] occ_all
  have mo: "map_of b n = Some ?E" by simp
  then have "(n, ?E) \<in> set b" by (rule map_of_SomeD)
  then have Ein: "?E \<in> set (m_entities ?r)" by force
  \<comment> \<open>the definitions of the attribute name\<close>
  let ?D = "map attr_json (defs_in_doc d1 n m)"
  have D: "?D = named m o1 @ named m (concat os1)"
    using named_occ_typed[of m n d1] occ1 by (simp add: named_append)
  have a1D: "attr_json a1 \<in> set ?D"
    using assms(1-4) by (auto simp: defs_in_doc_def)
  have nm: "named m (r_attributes ?E) =
      (if m \<in> set (str_names o1) then named m o1
       else if m \<noteq> [] then take 1 (named m (concat (os1 @ ?occ2))) else [])"
    unfolding RawEntity.select_convs by (rule foldl_add_occ_named)
  have res: "named m (r_attributes ?E) \<noteq> [] \<and>
      named m (r_attributes ?E) = take (length (named m (r_attributes ?E))) ?D"
  proof (cases "m \<in> set (str_names o1)")
    case True
    then have "named m o1 \<noteq> []" by (simp add: named_empty_iff)
    with nm True D show ?thesis by simp
  next
    case False
    then have e: "named m o1 = []" by (simp add: named_empty_iff)
    have "m \<noteq> []"
    proof (rule ccontr)
      assume "\<not> m \<noteq> []"
      with assms(5) have "find (\<lambda>e. e_name e = n) (entities d1) = Some e1" by simp
      from find_filter[OF this] occ1 have "o1 = map attr_json (attributes e1)"
        by (auto simp: occ_typed)
      with assms(3,4) have "attr_json a1 \<in> set (named m o1)"
        by (auto simp: named_attr_json)
      with e show False by simp
    qed
    from a1D D e have ne: "named m (concat os1) \<noteq> []" by auto
    then have "take 1 (named m (concat (os1 @ ?occ2))) = take 1 (named m (concat os1))"
      by (cases "named m (concat os1)") (simp_all add: named_append)
    with nm False \<open>m \<noteq> []\<close> have eq: "named m (r_attributes ?E) = take 1 (named m (concat os1))"
      by simp
    with ne have len: "length (named m (r_attributes ?E)) = 1"
      by (cases "named m (concat os1)") simp_all
    from eq ne D e len show ?thesis by (cases "named m (concat os1)") simp_all
  qed
  from run Ein res show ?thesis
    by (intro exI[of _ ?r] exI[of _ ?E]) simp
qed

theorem mergeSchemas_first_wins_witness:
  "\<exists>r E. mergeSchemas (JArr [schema_json docA, schema_json docB]) = Inr r \<and>
      E \<in> set (m_entities r) \<and> r_name E = ''User'' \<and>
      named ''userName'' (r_attributes E) = [attr_json (attr ''userName'' TString False False)]"
proof -
  let ?e1 = "\<lparr>e_name = ''User'',
      attributes = [attr ''id'' TString False True, attr ''userName'' TString False False]\<rparr>"
  let ?a1 = "attr ''userName'' TString False False"
  have h: "?e1 \<in> set (entities docA)" "e_name ?e1 = ''User''" "?a1 \<in> set (attributes ?e1)"
    "a_name ?a1 = ''userName''"
    "''userName'' \<noteq> [] \<or> find (\<lambda>e. e_name e = ''User'') (entities docA) = Some ?e1"
    by (simp_all add: docA_def attr_def)
  from mergeSchemas_first_wins[OF h, of docB] obtain r E where
    r: "mergeSchemas (JArr [schema_json docA, schema_json docB]) = Inr r"
      "E \<in> set (m_entities r)" "r_name E = ''User''"
    and ne: "named ''userName'' (r_attributes E) \<noteq> []"
    and tk: "named ''userName'' (r_attributes E) =
      take (length (named ''userName'' (r_attributes E)))
        (map attr_json (defs_in_doc docA ''User'' ''userName''))"
    by blast
  have d: "defs_in_doc docA ''User'' ''userName'' = [?a1]"
    by (simp add: defs_in_doc_def docA_def attr_def)
  from ne tk have "named ''userName'' (r_attributes E) = [attr_json ?a1]"
    unfolding d by (cases "length (named ''userName'' (r_attributes E))") simp_all
  with r show ?thesis by blast
qed

text \<open>
  C9, as stated, fails for a schema whose name is empty: an empty name is not truthy, so
  the merge finds no name and takes the default \<^verbatim>\<open>"Connector"\<close>.
\<close>

theorem mergeSchemas_idempotent_counterexample:
  "s_name nameless_schema = [] \<and>
   mergeSchemas (JArr [schema_json nameless_schema, schema_json nameless_schema]) =
     Inr \<lparr>m_name = JStr ''Connector'', m_version = JStr ''1.0.0'', m_entities = []\<rparr>"
  by (simp add: mergeSchemas_def docs_of_def schema_json_def isSchema_def nameless_schema_def
      entities_of_def first_truthy_def)

text \<open>
  C9, amended. For every schema \<open>s\<close> with a non-empty name, a non-empty version and
  pairwise distinct entity names, merging the two-document sequence \<open>[s, s]\<close> yields \<open>s\<close>:
  the same name, the same version, and entity by entity, in the same order, the same
  attributes.
\<close>

theorem mergeSchemas_idempotent:
  assumes "s_name s \<noteq> []" and "version s \<noteq> []" and "distinct (map e_name (entities s))"
  shows "mergeSchemas (JArr [schema_json s, schema_json s]) = Inr (merged_of s)"
proof -
  let ?input = "JArr [schema_json s, schema_json s]"
  let ?es = "map ent_json (entities s)"
  let ?b = "map (\<lambda>e. (e_name e, raw_entity e)) (entities s)"
  have ie: "input_entities ?input = ?es @ ?es"
    using input_entities_typed[of "[s, s]"] by simp
  have "map ent_name ?es = map e_name (entities s)" by (simp add: comp_def)
  with assms(3) have d: "distinct (map ent_name ?es)" by (simp only:)
  have first: "merge_entities ?es [] = Inr ?b"
    using merge_entities_fresh[of ?es "[]", OF _ d] by (simp add: raw_entity_def comp_def)
  have "map fst ?b = map e_name (entities s)" by (simp add: comp_def)
  with assms(3) have db: "distinct (map fst ?b)" by (simp only:)
  have "\<forall>e \<in> set (entities s). map_of ?b (e_name e) = Some (raw_entity e)"
  proof
    fix e assume "e \<in> set (entities s)"
    then have "(e_name e, raw_entity e) \<in> set ?b" by force
    with db show "map_of ?b (e_name e) = Some (raw_entity e)" by (rule map_of_is_SomeI)
  qed
  then have second: "merge_entities ?es ?b = Inr ?b" by (rule merge_entities_again)
  from first second have "merge_entities (input_entities ?input) [] = Inr ?b"
    unfolding ie by (simp add: merge_entities_append)
  from mergeSchemas_from_entities[OF this] assms(1,2) show ?thesis
    by (simp add: docs_of_def first_truthy_typed merged_of_def comp_def)
qed

theorem mergeSchemas_idempotent_witness:
  "mergeSchemas (JArr [schema_json docB, schema_json docB]) = Inr (merged_of docB)"
proof -
  have "s_name docB \<noteq> []" and "version docB \<noteq> []" and "distinct (map e_name (entities docB))"
    by (simp_all add: docB_def)
  then show ?thesis by (rule mergeSchemas_idempotent)
qed
section \<open>Properties of the polling routine\<close>

lemma poll_loop_pending:
  "\<forall>j < length ds. poll_once (server (i + j)) = None \<Longrightarrow>
   poll_loop ds i server tr =
     (Inr (Err ''No result within polling window''), tr @ concat (map (\<lambda>d. [Wait d, Poll]) ds))"
proof (induction ds arbitrary: i tr)
  case Nil
  then show ?case by simp
next
  case (Cons d ds)
  from Cons.prems have h: "poll_once (server i) = None" by force
  have "\<forall>j < length ds. poll_once (server (Suc i + j)) = None"
  proof (intro allI impI)
    fix j assume "j < length ds"
    then have "Suc j < length (d # ds)" by simp
    with Cons.prems have "poll_once (server (i + Suc j)) = None" by blast
    then show "poll_once (server (Suc i + j)) = None" by simp
  qed
  from Cons.IH[OF this] h show ?case by simp
qed

lemma poll_loop_settled:
  "k < length ds \<Longrightarrow> \<forall>j < k. poll_once (server (i + j)) = None \<Longrightarrow>
   poll_once (server (i + k)) = Some out \<Longrightarrow>
   poll_loop ds i server tr = (out, tr @ concat (map (\<lambda>d. [Wait d, Poll]) (take (Suc k) ds)))"
proof (induction ds arbitrary: i k tr)
  case Nil
  then show ?case by simp
next
  case (Cons d ds)
  show ?case
  proof (cases k)
    case 0
    with Cons.prems show ?thesis by simp
  next
    case (Suc k')
    with Cons.prems have h: "poll_once (server i) = None" by force
    have a: "k' < length ds" using Cons.prems(1) Suc by simp
    have b: "\<forall>j < k'. poll_once (server (Suc i + j)) = None"
    proof (intro allI impI)
      fix j assume "j < k'"
      then have "Suc j < k" using Suc by simp
      with Cons.prems(2) have "poll_once (server (i + Suc j)) = None" by blast
      then show "poll_once (server (Suc i + j)) = None" by simp
    qed
    have c: "poll_once (server (Suc i + k')) = Some out" using Cons.prems(3) Suc by simp
    from Cons.IH[OF a b c] h Suc show ?thesis by simp
  qed
qed

lemma pending_iff: "pending fr \<longleftrightarrow> poll_once fr = None"
  by (auto simp: pending_def poll_once_def payload_def
      split: fetch_result.splits option.splits if_splits)

lemma poll_once_refused:
  "\<not> res_ok res \<Longrightarrow>
   poll_once (Returned res) = Some (Inr (Err (show_nat (res_status res) @ '' '' @ res_statusText res)))"
  by (simp add: poll_once_def)

lemma poll_once_payload:
  "res_ok res \<Longrightarrow> res_body res = Some j \<Longrightarrow> truthy_opt (get_prop_opt ''ok'' j) \<Longrightarrow>
   get_prop ''result'' j = Some v \<Longrightarrow> truthy v \<Longrightarrow>
   poll_once (Returned res) = Some (Inr (Ok v))"
  by (simp add: poll_once_def payload_def)

text \<open>
  C5, as stated, fails: a response that is not HTTP-OK is not treated as pending. The
  routine returns a failure with the status line after the first poll, although the
  response is well formed, carries no result payload, and four rounds of the schedule
  are left.
\<close>

theorem pollResultWithDelays_counterexample:
  "pollResultWithDelays not_found_server = (Inr (Err ''404 Not Found''), [Wait 10000, Poll])"
  by (simp add: pollResultWithDelays_def POLL_DELAYS_MS_def not_found_server_def poll_once_def
      not_found_def show_nat.simps digit_char_def)

text \<open>
  C5, amended. Take any sequence of poll answers, and call an answer pending when it is
  an HTTP-OK response with a JSON body that lacks a truthy \<^verbatim>\<open>ok\<close> flag or a truthy
  \<^verbatim>\<open>result\<close>. The routine issues exactly one poll after each wait of the
  five-interval schedule, in order, until it returns. If the first five answers are all
  pending, it returns the failure \<^verbatim>\<open>No result within polling window\<close> after the
  fifth poll. If the answers before the \<open>k\<close>-th are pending and the \<open>k\<close>-th is a
  response that is not HTTP-OK, it returns the failure \<^verbatim>\<open>status statusText\<close> after
  that poll; if the \<open>k\<close>-th is an HTTP-OK response whose JSON body has a truthy
  \<^verbatim>\<open>ok\<close> flag and a truthy \<^verbatim>\<open>result\<close>, it returns success with that result
  after that poll. (Nothing is said of a fetch that fails or of an HTTP-OK response
  whose body is not JSON.)
\<close>

theorem pollResultWithDelays_schedule:
  "((\<forall>i < 5. pending (server i)) \<longrightarrow>
      pollResultWithDelays server = (Inr (Err ''No result within polling window''), rounds 5)) \<and>
   (\<forall>k < 5. (\<forall>i < k. pending (server i)) \<longrightarrow>
      (\<forall>res. server k = Returned res \<longrightarrow>
         (\<not> res_ok res \<longrightarrow>
            pollResultWithDelays server =
              (Inr (Err (show_nat (res_status res) @ '' '' @ res_statusText res)), rounds (Suc k))) \<and>
         (\<forall>j v. res_ok res \<and> res_body res = Some j \<and>
                truthy_opt (get_prop_opt ''ok'' j) \<and>
                get_prop ''result'' j = Some v \<and> truthy v \<longrightarrow>
            pollResultWithDelays server = (Inr (Ok v), rounds (Suc k))))) \<and>
   rounds 5 = [Wait 10000, Poll, Wait 15000, Poll, Wait 15000, Poll, Wait 10000, Poll, Wait 15000, Poll]"
proof (intro conjI allI impI)
  assume "\<forall>i < 5. pending (server i)"
  then have "\<forall>j < length POLL_DELAYS_MS. poll_once (server (0 + j)) = None"
    by (simp add: POLL_DELAYS_MS_def pending_iff)
  from poll_loop_pending[OF this, of "[]"]
  show "pollResultWithDelays server = (Inr (Err ''No result within polling window''), rounds 5)"
    by (simp add: pollResultWithDelays_def rounds_def POLL_DELAYS_MS_def)
next
  fix k res
  assume k: "k < 5" and p: "\<forall>i < k. pending (server i)"
    and s: "server k = Returned res" and r: "\<not> res_ok res"
  from k have a: "k < length POLL_DELAYS_MS" by (simp add: POLL_DELAYS_MS_def)
  from p have b: "\<forall>j < k. poll_once (server (0 + j)) = None" by (simp add: pending_iff)
  from s poll_once_refused[OF r]
  have c: "poll_once (server (0 + k)) =
      Some (Inr (Err (show_nat (res_status res) @ '' '' @ res_statusText res)))" by simp
  from poll_loop_settled[OF a b c, of "[]"]
  show "pollResultWithDelays server =
      (Inr (Err (show_nat (res_status res) @ '' '' @ res_statusText res)), rounds (Suc k))"
    by (simp add: pollResultWithDelays_def rounds_def)
next
  fix k res j v
  assume k: "k < 5" and p: "\<forall>i < k. pending (server i)"
    and s: "server k = Returned res"
    and h: "res_ok res \<and> res_body res = Some j \<and> truthy_opt (get_prop_opt ''ok'' j) \<and>
        get_prop ''result'' j = Some v \<and> truthy v"
  from k have a: "k < length POLL_DELAYS_MS" by (simp add: POLL_DELAYS_MS_def)
  from p have b: "\<forall>j < k. poll_once (server (0 + j)) = None" by (simp add: pending_iff)
  from h have "poll_once (Returned res) = Some (Inr (Ok v))"
    by (simp add: poll_once_payload)
  with s have c: "poll_once (server (0 + k)) = Some (Inr (Ok v))" by simp
  from poll_loop_settled[OF a b c, of "[]"]
  show "pollResultWithDelays server = (Inr (Ok v), rounds (Suc k))"
    by (simp add: pollResultWithDelays_def rounds_def)
next
  show "rounds 5 = [Wait 10000, Poll, Wait 15000, Poll, Wait 15000, Poll, Wait 10000, Poll, Wait 15000, Poll]"
    by (simp add: rounds_def POLL_DELAYS_MS_def)
qed

theorem pollResultWithDelays_schedule_witness:
  "pollResultWithDelays pending_server = (Inr (Err ''No result within polling window''), rounds 5) \<and>
   pollResultWithDelays third_poll_server = (Inr (Ok (JStr ''{}'')), rounds 3) \<and>
   pollResultWithDelays second_poll_refused = (Inr (Err ''404 Not Found''), rounds 2)"
proof -
  have p: "pending (Returned pending_response)"
    by (simp add: pending_def pending_response_def)
  have "\<forall>i < 5. pending (pending_server i)"
    by (simp add: pending_server_def p)
  with pollResultWithDelays_schedule[of pending_server, THEN conjunct1]
  have a: "pollResultWithDelays pending_server = (Inr (Err ''No result within polling window''), rounds 5)"
    by (rule mp)
  have k2: "(2::nat) < 5" by simp
  have p2: "\<forall>i < 2. pending (third_poll_server i)"
    by (simp add: third_poll_server_def p)
  have s2: "third_poll_server 2 = Returned done_response"
    by (simp add: third_poll_server_def)
  have h2: "res_ok done_response \<and> res_body done_response =
        Some (JObj [(''ok'', JBool True), (''result'', JStr ''{}'')]) \<and>
      truthy_opt (get_prop_opt ''ok'' (JObj [(''ok'', JBool True), (''result'', JStr ''{}'')])) \<and>
      get_prop ''result'' (JObj [(''ok'', JBool True), (''result'', JStr ''{}'')]) = Some (JStr ''{}'') \<and>
      truthy (JStr ''{}'')"
    by (simp add: done_response_def)
  from pollResultWithDelays_schedule[of third_poll_server, THEN conjunct2, THEN conjunct1] k2 p2 s2
  have "\<forall>j v. res_ok done_response \<and> res_body done_response = Some j \<and>
          truthy_opt (get_prop_opt ''ok'' j) \<and> get_prop ''result'' j = Some v \<and> truthy v \<longrightarrow>
        pollResultWithDelays third_poll_server = (Inr (Ok v), rounds (Suc 2))"
    by blast
  with h2 have b: "pollResultWithDelays third_poll_server = (Inr (Ok (JStr ''{}'')), rounds (Suc 2))"
    by blast
  have k1: "(1::nat) < 5" by simp
  have p1: "\<forall>i < 1. pending (second_poll_refused i)"
    by (simp add: second_poll_refused_def p)
  have s1: "second_poll_refused 1 = Returned not_found"
    by (simp add: second_poll_refused_def)
  have r1: "\<not> res_ok not_found" by (simp add: not_found_def)
  from pollResultWithDelays_schedule[of second_poll_refused, THEN conjunct2, THEN conjunct1] k1 p1 s1
  have "\<not> res_ok not_found \<longrightarrow> pollResultWithDelays second_poll_refused =
      (Inr (Err (show_nat (res_status not_found) @ '' '' @ res_statusText not_found)), rounds (Suc 1))"
    by blast
  with r1 have "pollResultWithDelays second_poll_refused =
      (Inr (Err (show_nat (res_status not_found) @ '' '' @ res_statusText not_found)), rounds (Suc 1))"
    by (rule rev_mp)
  then have c: "pollResultWithDelays second_poll_refused = (Inr (Err ''404 Not Found''), rounds 2)"
    by (simp add: not_found_def show_nat.simps digit_char_def numeral_2_eq_2)
  from a b c show ?thesis by (simp add: numeral_3_eq_3)
qed

section \<open>Properties of the correlation identifier\<close>

lemma limit_248: "limit = 248" by (simp add: limit_def ALPHABET_def)
lemma len_alpha: "length ALPHABET = 62" by (simp add: ALPHABET_def)

lemma fill_eq:
  "length out \<le> len \<Longrightarrow>
   fill len buf out = out @ map symbol (take (len - length out) (filter accepted buf))"
proof (induction buf arbitrary: out)
  case Nil
  then show ?case by simp
next
  case (Cons v buf)
  show ?case
  proof (cases "length out < len")
    case False
    with Cons.prems show ?thesis by simp
  next
    case True
    show ?thesis
    proof (cases "accepted v")
      case False
      with True Cons show ?thesis by simp
    next
      case acc: True
      from True have "length (out @ [symbol v]) \<le> len" by simp
      moreover from True have "len - length out = Suc (len - Suc (length out))" by simp
      ultimately show ?thesis using Cons.IH[of "out @ [symbol v]"] True acc by simp
    qed
  qed
qed

lemma id_loop_returns:
  "length out \<le> len \<Longrightarrow>
   len - length out \<le> length (filter accepted (concat (map (buffer src len) [k ..< k + j]))) \<Longrightarrow>
   id_loop src len k out =
     Some (out @ map symbol (take (len - length out)
        (filter accepted (concat (map (buffer src len) [k ..< k + j])))))"
proof (induction j arbitrary: k out)
  case 0
  then have "\<not> length out < len" by simp
  then show ?case by (subst id_loop.simps) simp
next
  case (Suc j)
  let ?rest = "filter accepted (concat (map (buffer src len) [Suc k ..< Suc k + j]))"
  let ?here = "filter accepted (buffer src len k)"
  have split: "filter accepted (concat (map (buffer src len) [k ..< k + Suc j])) = ?here @ ?rest"
    by (simp add: upt_conv_Cons del: upt_Suc)
  show ?case
  proof (cases "length out < len")
    case False
    with Suc.prems(1) show ?thesis by (subst id_loop.simps) simp
  next
    case True
    let ?out1 = "fill len (buffer src len k) out"
    have o1: "?out1 = out @ map symbol (take (len - length out) ?here)"
      by (rule fill_eq[OF Suc.prems(1)])
    then have l1: "length ?out1 = length out + min (length ?here) (len - length out)" by simp
    with Suc.prems(1) have le1: "length ?out1 \<le> len" by simp
    from Suc.prems(2) l1 have enough: "len - length ?out1 \<le> length ?rest"
      unfolding split by (simp add: min_def split: if_splits)
    have "id_loop src len k out = id_loop src len (Suc k) ?out1"
      using True by (subst id_loop.simps) simp
    also have "\<dots> = Some (?out1 @ map symbol (take (len - length ?out1) ?rest))"
      by (rule Suc.IH[OF le1 enough])
    also have "?out1 @ map symbol (take (len - length ?out1) ?rest) =
        out @ map symbol (take (len - length out) (?here @ ?rest))"
      unfolding o1 by (auto simp: min_def take_map[symmetric] simp del: take_map)
    finally show ?thesis unfolding split .
  qed
qed


lemma concat_buffers: "concat (map (buffer src len) [0 ..< j]) = map src [0 ..< j * (len * 2)]"
proof (induction j)
  case 0
  then show ?case by simp
next
  case (Suc j)
  have "[0 ..< Suc j * (len * 2)] = [0 ..< j * (len * 2)] @ [j * (len * 2) ..< Suc j * (len * 2)]"
    using upt_add_eq_append[of 0 "j * (len * 2)" "len * 2"] by (simp add: add.commute)
  with Suc show ?case by (simp add: buffer_def)
qed

lemma residue_class:
  fixes n j :: nat
  assumes "j < 62"
  shows "n < 248 \<and> n mod 62 = j \<longleftrightarrow> n \<in> {j, j + 62, j + 124, j + 186}"
proof
  assume a: "n < 248 \<and> n mod 62 = j"
  define q where "q = n div 62"
  have "n = 62 * (n div 62) + n mod 62" by (rule mult_div_mod_eq[symmetric])
  with a have n: "n = 62 * q + j" by (simp add: q_def)
  from a have "q < 4" unfolding q_def by (simp add: less_mult_imp_div_less)
  then have "q = 0 \<or> q = 1 \<or> q = 2 \<or> q = 3" by linarith
  with n show "n \<in> {j, j + 62, j + 124, j + 186}" by auto
next
  assume "n \<in> {j, j + 62, j + 124, j + 186}"
  then have "n = j + 62 * 0 \<or> n = j + 62 * 1 \<or> n = j + 62 * 2 \<or> n = j + 62 * 3" by auto
  then obtain k where k: "n = j + 62 * k" "k < 4" by fastforce
  from k assms have "n < 248" by simp
  moreover from k assms have "n mod 62 = j" by simp
  ultimately show "n < 248 \<and> n mod 62 = j" by simp
qed


lemma card_unat_preimage:
  assumes "\<forall>n \<in> S. n < 256"
  shows "card {v :: 8 word. unat v \<in> S} = card S"
proof -
  have un: "unat (word_of_nat n :: 8 word) = n" if "n \<in> S" for n
  proof -
    from that assms have "n < 256" by simp
    then show ?thesis by (simp add: unat_of_nat)
  qed
  have "{v :: 8 word. unat v \<in> S} = word_of_nat ` S"
  proof (intro set_eqI iffI)
    fix v :: "8 word"
    assume "v \<in> {v. unat v \<in> S}"
    then have "unat v \<in> S" by simp
    then have "word_of_nat (unat v) \<in> (word_of_nat ` S :: 8 word set)" by (rule imageI)
    then show "v \<in> word_of_nat ` S" by simp
  next
    fix v :: "8 word"
    assume "v \<in> word_of_nat ` S"
    then obtain n where n: "n \<in> S" "v = word_of_nat n" by blast
    with un show "v \<in> {v. unat v \<in> S}" by simp
  qed
  moreover have "inj_on (word_of_nat :: nat \<Rightarrow> 8 word) S"
  proof (rule inj_onI)
    fix x y assume x: "x \<in> S" and y: "y \<in> S"
      and e: "(word_of_nat x :: 8 word) = word_of_nat y"
    from e have "unat (word_of_nat x :: 8 word) = unat (word_of_nat y :: 8 word)" by (rule arg_cong)
    then show "x = y" by (simp only: un[OF x] un[OF y])
  qed
  ultimately show ?thesis by (simp add: card_image)
qed

lemma symbol_preimages:
  assumes "c \<in> set ALPHABET"
  shows "card {v :: 8 word. accepted v \<and> symbol v = c} = 4"
proof -
  have d: "distinct ALPHABET" by (simp add: ALPHABET_def)
  from assms obtain j where j: "j < 62" "ALPHABET ! j = c"
    by (auto simp: in_set_conv_nth len_alpha)
  define S where "S = {j, j + 62, j + 124, j + 186}"
  have sym: "symbol v = c \<longleftrightarrow> unat v mod 62 = j" for v
  proof -
    have "ALPHABET ! (unat v mod 62) = ALPHABET ! j \<longleftrightarrow> unat v mod 62 = j"
      by (rule nth_eq_iff_index_eq[OF d]) (simp_all add: len_alpha j(1))
    with j(2) show ?thesis by (simp add: symbol_def len_alpha)
  qed
  have ar: "n < 248 \<and> n mod 62 = j \<longleftrightarrow> n \<in> S" for n :: nat
    unfolding S_def by (rule residue_class[OF j(1)])
  have "{v :: 8 word. accepted v \<and> symbol v = c} = {v. unat v \<in> S}"
    by (simp add: accepted_def limit_248 sym ar)
  moreover have "\<forall>n \<in> S. n < 256" using j(1) by (auto simp: S_def)
  then have "card {v :: 8 word. unat v \<in> S} = card S" by (rule card_unat_preimage)
  moreover have "card S = 4" by (simp add: S_def)
  ultimately show ?thesis by simp
qed

lemma symbol_in_alphabet: "symbol v \<in> set ALPHABET"
  by (simp add: symbol_def len_alpha)

text \<open>
  C6. For every byte source that delivers thirty accepted bytes among finitely many (a
  uniform random source does so with probability one; on any other source the loop does
  not return), \<^verbatim>\<open>id30Base62\<close> returns a string of exactly 30 symbols of the
  62-character alphabet; the symbols are those of the first thirty bytes below 248 (the
  limit; a byte is accepted exactly when it is below it), in order, every byte of 248 and
  above being skipped; and each symbol of the alphabet is the symbol of exactly four of
  the accepted byte values, so that under a uniform byte source the symbols are
  equiprobable.
\<close>

theorem id30Base62_unbiased:
  assumes "30 \<le> length (filter accepted (map src [0 ..< n]))"
  shows "\<exists>s. id30Base62 src = Some s \<and> length s = 30 \<and> set s \<subseteq> set ALPHABET \<and>
           s = map symbol (take 30 (filter accepted (map src [0 ..< n]))) \<and>
           (\<forall>v. accepted v \<longleftrightarrow> unat v < 248) \<and>
           (\<forall>c \<in> set ALPHABET. card {v :: 8 word. accepted v \<and> symbol v = c} = 4)"
proof -
  let ?A = "filter accepted (map src [0 ..< n])"
  let ?s = "map symbol (take 30 ?A)"
  from assms have npos: "0 < n" by (cases n) auto
  then have "n \<le> n * 60" by simp
  then have "[0 ..< n * 60] = [0 ..< n] @ [n ..< n * 60]"
    using upt_add_eq_append[of 0 n "n * 60 - n"] by (simp add: mult.commute)
  then have all: "filter accepted (concat (map (buffer src 30) [0 ..< 0 + n])) =
      ?A @ filter accepted (map src [n ..< n * 60])"
    by (simp add: concat_buffers)
  have "id_loop src 30 0 [] = Some ([] @ map symbol (take (30 - length ([]::string))
      (filter accepted (concat (map (buffer src 30) [0 ..< 0 + n])))))"
    by (rule id_loop_returns) (use assms all in simp_all)
  with assms all have run: "id30Base62 src = Some ?s"
    by (simp add: id30Base62_def)
  moreover from assms have "length ?s = 30" by simp
  moreover have "set ?s \<subseteq> set ALPHABET" using symbol_in_alphabet by auto
  moreover have "\<forall>v. accepted v \<longleftrightarrow> unat v < 248" by (simp add: accepted_def limit_248)
  moreover have "\<forall>c \<in> set ALPHABET. card {v :: 8 word. accepted v \<and> symbol v = c} = 4"
    using symbol_preimages by blast
  ultimately show ?thesis by blast
qed



theorem id30Base62_unbiased_witness:
  "id30Base62 counting_source = Some ''IJKLMNOPQRSTUVWXYZ0123456789ab''"
proof -
  have h: "30 \<le> length (filter accepted (map counting_source [0 ..< 40]))"
    by code_simp
  have v: "map symbol (take 30 (filter accepted (map counting_source [0 ..< 40]))) =
      ''IJKLMNOPQRSTUVWXYZ0123456789ab''"
    by code_simp
  from id30Base62_unbiased[OF h]
  have "id30Base62 counting_source =
      Some (map symbol (take 30 (filter accepted (map counting_source [0 ..< 40]))))"
    by blast
  then show ?thesis by (simp only: v)
qed

section \<open>Properties of the upload item list\<close>

lemma digit_char_inj: "a < 10 \<Longrightarrow> b < 10 \<Longrightarrow> digit_char a = digit_char b \<Longrightarrow> a = b"
proof -
  assume a: "a < 10" and b: "b < 10" and e: "digit_char a = digit_char b"
  have d: "distinct ''0123456789''" by simp
  have "''0123456789'' ! a = ''0123456789'' ! b \<longleftrightarrow> a = b"
    by (rule nth_eq_iff_index_eq[OF d]) (use a b in simp_all)
  with e show ?thesis by (simp add: digit_char_def)
qed

lemma digit_char_digit: "d < 10 \<Longrightarrow> digit_char d \<in> set ''0123456789''"
  unfolding digit_char_def by (rule nth_mem) simp

lemma show_nat_digits: "set (show_nat n) \<subseteq> set ''0123456789''"
proof (induction n rule: show_nat.induct)
  case (1 n)
  show ?case
  proof (cases "n < 10")
    case True
    then show ?thesis using digit_char_digit[of n] by (subst show_nat.simps) simp
  next
    case False
    have "n mod 10 < 10" by simp
    from digit_char_digit[OF this] 1[OF False] False show ?thesis
      by (subst show_nat.simps) simp
  qed
qed

lemma show_nat_no_dash: "CHR ''-'' \<notin> set (show_nat n)"
  using show_nat_digits[of n] by auto

lemma show_nat_nonempty: "show_nat n \<noteq> []"
  by (subst show_nat.simps) simp

lemma show_nat_inj: "show_nat n = show_nat m \<Longrightarrow> n = m"
proof (induction n arbitrary: m rule: show_nat.induct)
  case (1 n)
  show ?case
  proof (cases "n < 10")
    case n: True
    show ?thesis
    proof (cases "m < 10")
      case True
      with n 1(2) have "digit_char n = digit_char m" by (simp add: show_nat.simps)
      with n True show ?thesis by (rule digit_char_inj)
    next
      case False
      with n 1(2) have "[digit_char n] = show_nat (m div 10) @ [digit_char (m mod 10)]"
        by (simp add: show_nat.simps)
      with show_nat_nonempty[of "m div 10"] show ?thesis by simp
    qed
  next
    case n: False
    show ?thesis
    proof (cases "m < 10")
      case True
      with n 1(2) have "show_nat (n div 10) @ [digit_char (n mod 10)] = [digit_char m]"
        by (simp add: show_nat.simps)
      with show_nat_nonempty[of "n div 10"] show ?thesis by simp
    next
      case False
      with n 1(2) have "show_nat (n div 10) @ [digit_char (n mod 10)] =
          show_nat (m div 10) @ [digit_char (m mod 10)]"
        by (simp add: show_nat.simps)
      then have a: "show_nat (n div 10) = show_nat (m div 10)"
        and b: "digit_char (n mod 10) = digit_char (m mod 10)" by simp_all
      from 1(1)[OF n a] have "n div 10 = m div 10" .
      moreover from b have "n mod 10 = m mod 10" by (intro digit_char_inj) simp_all
      ultimately show ?thesis by (metis div_mult_mod_eq)
    qed
  qed
qed

lemma split_at_last:
  "xs @ c # ds = ys @ c # es \<Longrightarrow> c \<notin> set ds \<Longrightarrow> c \<notin> set es \<Longrightarrow> xs = ys \<and> ds = es"
proof (induction xs arbitrary: ys)
  case Nil
  then show ?case by (cases ys) auto
next
  case (Cons x xs)
  then show ?case by (cases ys) auto
qed

lemma file_key_eq:
  "file_key f = file_key g \<longleftrightarrow> f_name f = f_name g \<and> f_size f = f_size g"
proof
  assume "file_key f = file_key g"
  then have "f_name f @ CHR ''-'' # show_nat (f_size f) = f_name g @ CHR ''-'' # show_nat (f_size g)"
    by (simp add: file_key_def)
  from split_at_last[OF this show_nat_no_dash show_nat_no_dash]
  show "f_name f = f_name g \<and> f_size f = f_size g" by (auto dest: show_nat_inj)
next
  assume "f_name f = f_name g \<and> f_size f = f_size g"
  then show "file_key f = file_key g" by (simp add: file_key_def)
qed

lemma map_sets_Nil [simp]: "map_sets m [] = m"
  by (simp add: map_sets_def)

lemma map_sets_Cons [simp]: "map_sets m ((k, v) # kvs) = map_sets (AList.update k v m) kvs"
  by (simp add: map_sets_def)

lemma map_sets_distinct: "distinct (map fst m) \<Longrightarrow> distinct (map fst (map_sets m kvs))"
proof (induction kvs arbitrary: m)
  case Nil
  then show ?case by simp
next
  case (Cons kv kvs)
  obtain k v where kv: "kv = (k, v)" by (cases kv)
  from Cons.prems have "distinct (map fst (AList.update k v m))" by (rule distinct_update)
  from Cons.IH[OF this] kv show ?case by simp
qed

lemma map_sets_keyed:
  "\<forall>(k, v) \<in> set m. k = g v \<Longrightarrow> \<forall>(k, v) \<in> set kvs. k = g v \<Longrightarrow>
   \<forall>(k, v) \<in> set (map_sets m kvs). k = g v"
proof (induction kvs arbitrary: m)
  case Nil
  then show ?case by simp
next
  case (Cons kv kvs)
  obtain k v where kv: "kv = (k, v)" by (cases kv)
  with Cons.prems(2) have kg: "k = g v" by simp
  have "set (AList.update k v m) \<subseteq> insert (k, v) (set m)" by (rule set_alist_update)
  with Cons.prems(1) kg have "\<forall>(k, v) \<in> set (AList.update k v m). k = g v" by fastforce
  moreover from Cons.prems(2) have "\<forall>(k, v) \<in> set kvs. k = g v" by simp
  ultimately show ?case using Cons.IH kv by simp
qed

lemma keyed_map_snd: "\<forall>(k, v) \<in> set m. k = g v \<Longrightarrow> map g (map snd m) = map fst m"
  by (induction m) auto

lemma distinct_map_comp: "distinct (map (\<lambda>x. f (g x)) xs) \<Longrightarrow> distinct (map g xs)"
  by (induction xs) auto

lemma file_key_name_size: "file_key (item_file p) = file_key (item_file q) \<longleftrightarrow> name_size p = name_size q"
  by (simp add: file_key_eq name_size_def)

lemma onPick_distinct: "distinct (map name_size prev) \<Longrightarrow> distinct (map name_size (onPick list uuid prev))"
proof (cases list)
  case None
  assume "distinct (map name_size prev)"
  with None show ?thesis by (simp add: onPick_def)
next
  case (Some fs)
  assume d: "distinct (map name_size prev)"
  show ?thesis
  proof (cases "fs = []")
    case True
    with Some d show ?thesis by (simp add: onPick_def)
  next
    case False
    let ?g = "\<lambda>p. file_key (item_file p)"
    let ?next = "new_items uuid fs"
    let ?m0 = "map_sets [] (map (\<lambda>p. (?g p, p)) prev)"
    let ?m1 = "map_sets ?m0 (map (\<lambda>n. (?g n, n)) ?next)"
    have r: "onPick list uuid prev = map snd ?m1"
      using Some False by (simp add: onPick_def Let_def)
    have d0: "distinct (map fst ?m0)" by (rule map_sets_distinct) simp
    have d1: "distinct (map fst ?m1)" by (rule map_sets_distinct[OF d0])
    have k0: "\<forall>(k, v) \<in> set ?m0. k = ?g v" by (rule map_sets_keyed) auto
    have k1: "\<forall>(k, v) \<in> set ?m1. k = ?g v" by (rule map_sets_keyed[OF k0]) auto
    from d1 have "distinct (map ?g (map snd ?m1))" by (simp only: keyed_map_snd[OF k1])
    then have "distinct (map (\<lambda>p. (\<lambda>(n, s). n @ ''-'' @ show_nat s) (name_size p)) (map snd ?m1))"
      by (simp add: file_key_def name_size_def)
    then have "distinct (map name_size (map snd ?m1))" by (rule distinct_map_comp)
    with r show ?thesis by simp
  qed
qed

lemma picks_distinct: "distinct (map name_size items) \<Longrightarrow> distinct (map name_size (picks evs items))"
proof (induction evs arbitrary: items)
  case Nil
  then show ?case by simp
next
  case (Cons ev evs)
  obtain list uuid where ev: "ev = (list, uuid)" by (cases ev)
  from Cons.prems have "distinct (map name_size (onPick list uuid items))" by (rule onPick_distinct)
  from Cons.IH[OF this] ev show ?case by simp
qed

lemma update_new: "k \<notin> fst ` set al \<Longrightarrow> AList.update k v al = al @ [(k, v)]"
  by (induction al) auto

lemma map_sets_fresh:
  "distinct (map fst m @ map g xs) \<Longrightarrow>
   map_sets m (map (\<lambda>p. (g p, p)) xs) = m @ map (\<lambda>p. (g p, p)) xs"
proof (induction xs arbitrary: m)
  case Nil
  then show ?case by simp
next
  case (Cons x xs)
  from Cons.prems have nin: "g x \<notin> fst ` set m" by auto
  from Cons.prems have "distinct (map fst (m @ [(g x, x)]) @ map g xs)" by auto
  from Cons.IH[OF this] update_new[OF nin] show ?case by simp
qed

lemma update_present:
  "distinct (map g xs) \<Longrightarrow> k \<in> g ` set xs \<Longrightarrow>
   AList.update k n (map (\<lambda>p. (g p, p)) xs) = map (\<lambda>p. (g p, if g p = k then n else p)) xs"
proof (induction xs)
  case Nil
  then show ?case by simp
next
  case (Cons x xs)
  show ?case
  proof (cases "g x = k")
    case True
    from Cons.prems(1) have "g x \<notin> g ` set xs" by simp
    with True have "\<forall>p \<in> set xs. g p \<noteq> k" by (metis image_eqI)
    then have "map (\<lambda>p. (g p, if g p = k then n else p)) xs = map (\<lambda>p. (g p, p)) xs" by simp
    with True show ?thesis by simp
  next
    case False
    with Cons show ?thesis by auto
  qed
qed

lemma onPick_single:
  assumes "distinct (map name_size prev)"
  shows "onPick (Some [f]) uuid prev =
     (if \<exists>p \<in> set prev. same_file f p
      then map (\<lambda>p. if same_file f p then new_item (uuid 0) f else p) prev
      else prev @ [new_item (uuid 0) f])"
proof -
  let ?g = "\<lambda>p. file_key (item_file p)"
  let ?n = "new_item (uuid 0) f"
  have inj: "?g p = ?g q \<longleftrightarrow> name_size p = name_size q" for p q by (rule file_key_name_size)
  have dk: "distinct (map ?g prev)"
    using assms
  proof (induction prev)
    case Nil
    then show ?case by simp
  next
    case (Cons p ps)
    then show ?case by (auto simp: inj)
  qed
  have m0: "map_sets [] (map (\<lambda>p. (?g p, p)) prev) = map (\<lambda>p. (?g p, p)) prev"
    using map_sets_fresh[of "[]" ?g prev] dk by simp
  have gn: "?g ?n = file_key f" by (simp add: new_item_def)
  have same: "same_file f p \<longleftrightarrow> ?g p = file_key f" for p
    by (auto simp: same_file_def file_key_eq)
  have r: "onPick (Some [f]) uuid prev = map snd (AList.update (file_key f) ?n (map (\<lambda>p. (?g p, p)) prev))"
    by (simp add: onPick_def Let_def m0 gn new_items_def)
  show ?thesis
  proof (cases "\<exists>p \<in> set prev. same_file f p")
    case True
    then have "file_key f \<in> ?g ` set prev" by (metis image_eqI same)
    from update_present[OF dk this] r True show ?thesis
      by (simp add: same comp_def)
  next
    case False
    then have "\<forall>p \<in> set prev. ?g p \<noteq> file_key f" by (simp add: same)
    then have "file_key f \<notin> fst ` set (map (\<lambda>p. (?g p, p)) prev)" by force
    from update_new[OF this] r False show ?thesis by (simp add: comp_def)
  qed
qed

lemma map_of_map_sets:
  "map_of (map_sets m kvs) k =
     (case map_of (rev kvs) k of Some v \<Rightarrow> Some v | None \<Rightarrow> map_of m k)"
proof (induction kvs arbitrary: m)
  case Nil
  then show ?case by simp
next
  case (Cons kv kvs)
  obtain k' v' where kv: "kv = (k', v')" by (cases kv)
  have "map_of (map_sets m (kv # kvs)) k =
      (case map_of (rev kvs) k of Some v \<Rightarrow> Some v | None \<Rightarrow> map_of (AList.update k' v' m) k)"
    using Cons.IH[of "AList.update k' v' m"] kv by simp
  then show ?case
    by (auto simp: kv update_conv' map_add_def split: option.splits)
qed

lemma map_sets_keys:
  "\<exists>ks. map fst (map_sets m kvs) = map fst m @ ks \<and> set ks \<subseteq> fst ` set kvs \<and>
        set ks \<inter> fst ` set m = {}"
proof (induction kvs arbitrary: m)
  case Nil
  then show ?case by simp
next
  case (Cons kv kvs)
  obtain k v where kv: "kv = (k, v)" by (cases kv)
  let ?m1 = "AList.update k v m"
  from Cons.IH[of ?m1] obtain ks where ks: "map fst (map_sets ?m1 kvs) = map fst ?m1 @ ks"
    "set ks \<subseteq> fst ` set kvs" "set ks \<inter> fst ` set ?m1 = {}" by blast
  show ?case
  proof (cases "k \<in> fst ` set m")
    case True
    then have "map fst ?m1 = map fst m" by (simp add: update_keys)
    moreover from ks(3) have "set ks \<inter> fst ` set m = {}" by (auto simp: dom_update)
    ultimately show ?thesis using ks kv by auto
  next
    case False
    then have m1: "map fst ?m1 = map fst m @ [k]" by (simp add: update_keys)
    from ks(3) have "set ks \<inter> fst ` set m = {}" by (auto simp: dom_update)
    with False have "set (k # ks) \<inter> fst ` set m = {}" by simp
    moreover from ks(2) have "set (k # ks) \<subseteq> fst ` set (kv # kvs)" using kv by auto
    moreover have "map fst (map_sets m (kv # kvs)) = map fst m @ (k # ks)"
      using ks(1) m1 kv by simp
    ultimately show ?thesis by blast
  qed
qed

lemma map_sets_dom: "fst ` set (map_sets m kvs) = fst ` set m \<union> fst ` set kvs"
proof (induction kvs arbitrary: m)
  case Nil
  then show ?case by simp
next
  case (Cons kv kvs)
  obtain k v where kv: "kv = (k, v)" by (cases kv)
  from Cons.IH[of "AList.update k v m"] kv show ?case by (auto simp: dom_update)
qed

lemma snd_by_keys:
  "distinct (map fst M) \<Longrightarrow> map snd M = map (\<lambda>k. the (map_of M k)) (map fst M)"
proof (induction M)
  case Nil
  then show ?case by simp
next
  case (Cons kv M)
  obtain k v where kv: "kv = (k, v)" by (cases kv)
  from Cons.prems kv have nin: "k \<notin> fst ` set M" and d: "distinct (map fst M)" by auto
  have "map (\<lambda>k'. the (map_of (kv # M) k')) (map fst M) = map (\<lambda>k'. the (map_of M k')) (map fst M)"
    using nin kv by (intro map_cong) auto
  with Cons.IH[OF d] kv show ?case by simp
qed

lemma map_of_keyed_find: "map_of (map (\<lambda>n. (g n, n)) xs) k = find (\<lambda>n. g n = k) xs"
  by (induction xs) auto

lemma find_Some_props: "find P xs = Some x \<Longrightarrow> x \<in> set xs \<and> P x"
  by (induction xs) (auto split: if_splits)

lemma find_None_notin: "find P xs = None \<longleftrightarrow> (\<forall>x \<in> set xs. \<not> P x)"
  by (induction xs) auto

lemma distinct_keys_of_name_size:
  "distinct (map name_size prev) \<Longrightarrow> distinct (map (\<lambda>p. file_key (item_file p)) prev)"
proof (induction prev)
  case Nil
  then show ?case by simp
next
  case (Cons p ps)
  then show ?case by (auto simp: file_key_name_size)
qed

lemma onPick_general:
  assumes d: "distinct (map name_size prev)" and ne: "fs \<noteq> []"
  shows "take (length prev) (onPick (Some fs) uuid prev) =
           map (\<lambda>p. case find (\<lambda>n. name_size n = name_size p) (rev (new_items uuid fs)) of
                      Some n \<Rightarrow> n | None \<Rightarrow> p) prev"
    and "\<forall>q \<in> set (drop (length prev) (onPick (Some fs) uuid prev)).
           name_size q \<notin> name_size ` set prev \<and>
           find (\<lambda>n. name_size n = name_size q) (rev (new_items uuid fs)) = Some q"
    and "\<forall>n \<in> set (new_items uuid fs). name_size n \<in> name_size ` set (onPick (Some fs) uuid prev)"
proof -
  let ?g = "\<lambda>p. file_key (item_file p)"
  let ?next = "new_items uuid fs"
  let ?M0 = "map (\<lambda>p. (?g p, p)) prev"
  let ?E = "map (\<lambda>n. (?g n, n)) ?next"
  let ?M1 = "map_sets ?M0 ?E"
  let ?R = "onPick (Some fs) uuid prev"
  have eqg: "?g n = ?g p \<longleftrightarrow> name_size n = name_size p" for n p by (rule file_key_name_size)
  have dk: "distinct (map ?g prev)" by (rule distinct_keys_of_name_size[OF d])
  have m0: "map_sets [] ?M0 = ?M0" using map_sets_fresh[of "[]" ?g prev] dk by simp
  have R: "?R = map snd ?M1" using ne by (simp add: onPick_def Let_def m0)
  have d0: "distinct (map fst ?M0)" using dk by (simp add: comp_def)
  have d1: "distinct (map fst ?M1)" by (rule map_sets_distinct[OF d0])
  from map_sets_keys[of ?M0 ?E] obtain ks where
    ks: "map fst ?M1 = map fst ?M0 @ ks" "set ks \<subseteq> fst ` set ?E" "set ks \<inter> fst ` set ?M0 = {}"
    by blast
  have keys0: "map fst ?M0 = map ?g prev" by (simp add: comp_def)
  have look: "map_of ?M1 k =
      (case find (\<lambda>n. ?g n = k) (rev ?next) of Some n \<Rightarrow> Some n | None \<Rightarrow> find (\<lambda>p. ?g p = k) prev)" for k
  proof -
    have "map_of (rev ?E) k = find (\<lambda>n. ?g n = k) (rev ?next)"
      unfolding rev_map by (rule map_of_keyed_find)
    moreover have "map_of ?M0 k = find (\<lambda>p. ?g p = k) prev" by (rule map_of_keyed_find)
    ultimately show ?thesis unfolding map_of_map_sets by (simp only:)
  qed
  have self: "find (\<lambda>q. ?g q = ?g p) prev = Some p" if "p \<in> set prev" for p
  proof -
    from that have "(?g p, p) \<in> set ?M0" by force
    with d0 have "map_of ?M0 (?g p) = Some p" by (rule map_of_is_SomeI)
    then show ?thesis by (simp add: map_of_keyed_find)
  qed
  define A where "A = map (\<lambda>k. the (map_of ?M1 k)) (map ?g prev)"
  define B where "B = map (\<lambda>k. the (map_of ?M1 k)) ks"
  have "map snd ?M1 = map (\<lambda>k. the (map_of ?M1 k)) (map fst ?M0 @ ks)"
    using snd_by_keys[OF d1] by (simp only: ks(1))
  then have Rk: "?R = A @ B" by (simp only: R keys0 map_append A_def B_def)
  have len: "length A = length prev" by (simp add: A_def)
  have first: "A = map (\<lambda>p. case find (\<lambda>n. name_size n = name_size p) (rev ?next) of
                  Some n \<Rightarrow> n | None \<Rightarrow> p) prev"
  proof -
    have "the (map_of ?M1 (?g p)) =
        (case find (\<lambda>n. name_size n = name_size p) (rev ?next) of Some n \<Rightarrow> n | None \<Rightarrow> p)"
      if "p \<in> set prev" for p
      using self[OF that] by (simp add: look eqg split: option.splits)
    then show ?thesis by (simp add: A_def comp_def)
  qed
  have "take (length A) (A @ B) = A" by simp
  then have "take (length prev) ?R = A" by (simp only: Rk len)
  then show "take (length prev) ?R =
      map (\<lambda>p. case find (\<lambda>n. name_size n = name_size p) (rev ?next) of
                  Some n \<Rightarrow> n | None \<Rightarrow> p) prev"
    by (simp only: first)
  have "drop (length A) (A @ B) = B" by simp
  then have dr: "drop (length prev) ?R = map (\<lambda>k. the (map_of ?M1 k)) ks"
    by (simp only: Rk len B_def)
  show "\<forall>q \<in> set (drop (length prev) ?R).
      name_size q \<notin> name_size ` set prev \<and>
      find (\<lambda>n. name_size n = name_size q) (rev ?next) = Some q"
  proof
    fix q assume "q \<in> set (drop (length prev) ?R)"
    then obtain k where k: "k \<in> set ks" "q = the (map_of ?M1 k)" unfolding dr by auto
    from k(1) ks(3) have knot: "k \<notin> ?g ` set prev" by force
    from k(1) ks(2) have "k \<in> ?g ` set ?next" by force
    then have "k \<in> ?g ` set (rev ?next)" by simp
    then have "find (\<lambda>n. ?g n = k) (rev ?next) \<noteq> None"
      unfolding find_None_notin by blast
    then obtain n where n: "find (\<lambda>n. ?g n = k) (rev ?next) = Some n" by blast
    with k(2) have qn: "q = n" by (simp add: look)
    from find_Some_props[OF n] have gq: "?g q = k" using qn by simp
    have "name_size q \<notin> name_size ` set prev"
    proof
      assume "name_size q \<in> name_size ` set prev"
      then obtain p where "p \<in> set prev" "name_size q = name_size p" by blast
      then have "?g q = ?g p" by (simp add: eqg)
      with gq \<open>p \<in> set prev\<close> knot show False by blast
    qed
    moreover have "(\<lambda>n. name_size n = name_size q) = (\<lambda>n. ?g n = k)"
      using gq by (auto simp: eqg[symmetric])
    ultimately show "name_size q \<notin> name_size ` set prev \<and>
        find (\<lambda>n. name_size n = name_size q) (rev ?next) = Some q"
      using n qn by simp
  qed
  show "\<forall>n \<in> set ?next. name_size n \<in> name_size ` set ?R"
  proof
    fix n assume "n \<in> set ?next"
    then have "?g n \<in> fst ` set ?E" by force
    then have "?g n \<in> fst ` set ?M1" by (simp add: map_sets_dom)
    then obtain q where q: "(?g n, q) \<in> set ?M1" by force
    have k0: "\<forall>(k, v) \<in> set ?M0. k = ?g v" by auto
    have "\<forall>(k, v) \<in> set ?M1. k = ?g v" by (rule map_sets_keyed[OF k0]) auto
    with q have "?g n = ?g q" by blast
    then have "name_size n = name_size q" by (simp add: eqg)
    moreover from q have "q \<in> set ?R" unfolding R by force
    ultimately show "name_size n \<in> name_size ` set ?R" by blast
  qed
qed

lemma new_items_nth:
  "i < length fs \<Longrightarrow> new_items uuid fs ! i = new_item (uuid i) (fs ! i)"
  by (simp add: new_items_def nth_enumerate_eq)

text \<open>
  C10. After any sequence of pick events, starting from the empty list, no two items of
  the list have files that agree on both name and size. A pick event without files
  changes nothing. A pick event with files, on a list without such duplicates, gives a
  list without such duplicates again, in which every old item whose name and size a
  picked file has is replaced, at its place, by the new item of the last such file (the
  id made with the newly drawn UUID, status pending), every other old item is left at its
  place as it is, and behind the old places stand only new items of picked files whose
  name and size no old item had; every picked file is listed. For a pick of one file:
  the item with its name and size is replaced by the new item, or the new item is
  appended.
\<close>

theorem onPick_no_duplicates:
  "distinct (map name_size (picks evs [])) \<and>
   onPick None uuid prev = prev \<and>
   onPick (Some []) uuid prev = prev \<and>
   (distinct (map name_size prev) \<and> fs \<noteq> [] \<longrightarrow>
      distinct (map name_size (onPick (Some fs) uuid prev)) \<and>
      take (length prev) (onPick (Some fs) uuid prev) =
        map (\<lambda>p. case find (\<lambda>n. name_size n = name_size p) (rev (new_items uuid fs)) of
                   Some n \<Rightarrow> n | None \<Rightarrow> p) prev \<and>
      (\<forall>q \<in> set (drop (length prev) (onPick (Some fs) uuid prev)).
         name_size q \<notin> name_size ` set prev \<and>
         find (\<lambda>n. name_size n = name_size q) (rev (new_items uuid fs)) = Some q) \<and>
      (\<forall>n \<in> set (new_items uuid fs).
         name_size n \<in> name_size ` set (onPick (Some fs) uuid prev))) \<and>
   length (new_items uuid fs) = length fs \<and>
   (\<forall>i < length fs. new_items uuid fs ! i = new_item (uuid i) (fs ! i)) \<and>
   status (new_item (uuid 0) f) = Pending \<and>
   item_file (new_item (uuid 0) f) = f \<and>
   (distinct (map name_size prev) \<longrightarrow>
      onPick (Some [f]) uuid prev =
        (if \<exists>p \<in> set prev. same_file f p
         then map (\<lambda>p. if same_file f p then new_item (uuid 0) f else p) prev
         else prev @ [new_item (uuid 0) f]))"
proof -
  have a: "distinct (map name_size (picks evs []))" by (rule picks_distinct) simp
  have b: "onPick None uuid prev = prev" "onPick (Some []) uuid prev = prev"
    by (simp_all add: onPick_def)
  have c: "distinct (map name_size (onPick (Some fs) uuid prev)) \<and>
      take (length prev) (onPick (Some fs) uuid prev) =
        map (\<lambda>p. case find (\<lambda>n. name_size n = name_size p) (rev (new_items uuid fs)) of
                   Some n \<Rightarrow> n | None \<Rightarrow> p) prev \<and>
      (\<forall>q \<in> set (drop (length prev) (onPick (Some fs) uuid prev)).
         name_size q \<notin> name_size ` set prev \<and>
         find (\<lambda>n. name_size n = name_size q) (rev (new_items uuid fs)) = Some q) \<and>
      (\<forall>n \<in> set (new_items uuid fs).
         name_size n \<in> name_size ` set (onPick (Some fs) uuid prev))"
    if "distinct (map name_size prev) \<and> fs \<noteq> []"
  proof -
    from that have d: "distinct (map name_size prev)" and ne: "fs \<noteq> []" by simp_all
    from onPick_distinct[OF d] onPick_general[OF d ne] show ?thesis by (intro conjI)
  qed
  have e: "length (new_items uuid fs) = length fs"
    "\<forall>i < length fs. new_items uuid fs ! i = new_item (uuid i) (fs ! i)"
    by (simp_all add: new_items_nth) (simp add: new_items_def)
  have g: "status (new_item (uuid 0) f) = Pending" "item_file (new_item (uuid 0) f) = f"
    by (simp_all add: new_item_def)
  have h: "distinct (map name_size prev) \<longrightarrow>
      onPick (Some [f]) uuid prev =
        (if \<exists>p \<in> set prev. same_file f p
         then map (\<lambda>p. if same_file f p then new_item (uuid 0) f else p) prev
         else prev @ [new_item (uuid 0) f])"
    using onPick_single[of prev f uuid] by (rule impI)
  from c have c': "distinct (map name_size prev) \<and> fs \<noteq> [] \<longrightarrow>
      distinct (map name_size (onPick (Some fs) uuid prev)) \<and>
      take (length prev) (onPick (Some fs) uuid prev) =
        map (\<lambda>p. case find (\<lambda>n. name_size n = name_size p) (rev (new_items uuid fs)) of
                   Some n \<Rightarrow> n | None \<Rightarrow> p) prev \<and>
      (\<forall>q \<in> set (drop (length prev) (onPick (Some fs) uuid prev)).
         name_size q \<notin> name_size ` set prev \<and>
         find (\<lambda>n. name_size n = name_size q) (rev (new_items uuid fs)) = Some q) \<and>
      (\<forall>n \<in> set (new_items uuid fs).
         name_size n \<in> name_size ` set (onPick (Some fs) uuid prev))"
    by (rule impI)
  show ?thesis
    by (intro conjI) (rule a b c' e g h)+
qed

theorem onPick_no_duplicates_witness:
  "distinct (map name_size (picks picked_twice [])) \<and>
   take (length two_items) (onPick (Some [report_again, readme_md]) uuid_w two_items) =
     [new_item ''w0'' report_again, new_item ''u1'' notes_txt] \<and>
   map item_id (onPick (Some [report_again]) uuid_v two_items) =
     [''report.pdf-1024-1799-v0'', ''notes.txt-12-1701-u1''] \<and>
   map status (onPick (Some [report_again]) uuid_v two_items) = [Pending, Pending]"
proof -
  have d: "distinct (map name_size two_items)"
    by (simp add: two_items_def name_size_def new_item_def report_pdf_def notes_txt_def)
  have ne: "[report_again, readme_md] \<noteq> []" by simp
  have s: "same_file report_again (new_item ''u0'' report_pdf)"
    "\<not> same_file report_again (new_item ''u1'' notes_txt)"
    by (simp_all add: same_file_def new_item_def report_again_def report_pdf_def notes_txt_def)
  note t = onPick_no_duplicates[of picked_twice uuid_w two_items "[report_again, readme_md]" report_again]
  from t have a: "distinct (map name_size (picks picked_twice []))" by (rule conjunct1)
  from t[THEN conjunct2, THEN conjunct2, THEN conjunct2, THEN conjunct1, THEN mp, OF conjI[OF d ne],
      THEN conjunct2, THEN conjunct1]
  have "take (length two_items) (onPick (Some [report_again, readme_md]) uuid_w two_items) =
      map (\<lambda>p. case find (\<lambda>n. name_size n = name_size p)
                   (rev (new_items uuid_w [report_again, readme_md])) of
                 Some n \<Rightarrow> n | None \<Rightarrow> p) two_items" .
  also have "\<dots> = [new_item ''w0'' report_again, new_item ''u1'' notes_txt]"
    by (simp add: new_items_def enumerate_eq_zip upt_rec two_items_def name_size_def new_item_def
        report_again_def report_pdf_def notes_txt_def readme_md_def uuid_w_def)
  finally have b: "take (length two_items) (onPick (Some [report_again, readme_md]) uuid_w two_items) =
      [new_item ''w0'' report_again, new_item ''u1'' notes_txt]" .
  note t1 = onPick_no_duplicates[of "[]" uuid_v two_items "[]" report_again]
  from t1[THEN conjunct2, THEN conjunct2, THEN conjunct2, THEN conjunct2, THEN conjunct2,
      THEN conjunct2, THEN conjunct2, THEN conjunct2, THEN mp, OF d]
  have "onPick (Some [report_again]) uuid_v two_items =
        (if \<exists>p \<in> set two_items. same_file report_again p
         then map (\<lambda>p. if same_file report_again p then new_item (uuid_v 0) report_again else p) two_items
         else two_items @ [new_item (uuid_v 0) report_again])" .
  with s have "onPick (Some [report_again]) uuid_v two_items =
      [new_item ''v0'' report_again, new_item ''u1'' notes_txt]"
    by (simp add: two_items_def uuid_v_def)
  then have "map item_id (onPick (Some [report_again]) uuid_v two_items) =
       [''report.pdf-1024-1799-v0'', ''notes.txt-12-1701-u1'']"
    and "map status (onPick (Some [report_again]) uuid_v two_items) = [Pending, Pending]"
    by (simp_all add: new_item_def report_again_def notes_txt_def show_int_def show_nat.simps
        digit_char_def)
  with a b show ?thesis by simp
qed

lemma setStatus_ids [simp]: "map item_id (setStatus i st msg prev) = map item_id prev"
  by (induction prev) (auto simp: setStatus_def)

lemma setStatus_files [simp]: "map item_file (setStatus i st msg prev) = map item_file prev"
  by (induction prev) (auto simp: setStatus_def)

lemma uploads_start_ids [simp]: "map item_id (uploads_start its prev) = map item_id prev"
  by (induction its arbitrary: prev) auto

lemma uploads_start_files [simp]: "map item_file (uploads_start its prev) = map item_file prev"
  by (induction its arbitrary: prev) auto

lemma upload_end_ids [simp]: "map item_id (upload_end it out prev) = map item_id prev"
  by (cases out) (simp_all add: upload_end_def)

lemma upload_end_files [simp]: "map item_file (upload_end it out prev) = map item_file prev"
  by (cases out) (simp_all add: upload_end_def)

lemma uploads_end_ids [simp]: "map item_id (uploads_end ends prev) = map item_id prev"
  by (induction ends arbitrary: prev) auto

lemma uploads_end_files [simp]: "map item_file (uploads_end ends prev) = map item_file prev"
  by (induction ends arbitrary: prev) auto

lemma poll_finish_ids [simp]: "map item_id (poll_finish parse out prev) = map item_id prev"
  by (auto simp: poll_finish_def comp_def split: sum.splits poll_result.splits)

lemma poll_finish_files [simp]: "map item_file (poll_finish parse out prev) = map item_file prev"
  by (auto simp: poll_finish_def comp_def split: sum.splits poll_result.splits)

lemma merge_docA: "mergeSchemas (schema_json docA) = Inr (merged_of docA)"
  by (simp add: mergeSchemas_def docs_of_def schema_json_def isSchema_def docA_def
      entities_of_def merge_entity_def isEnt_def ent_json_def ent_name_def ent_attrs_def
      merged_of_def raw_entity_def first_truthy_def)

lemma result_docs_docA: "result_docs parse (schema_json docA) = Inr (schema_json docA)"
  by (simp add: result_docs_def schema_json_def)

text \<open>
  C7, as stated, fails: an item whose upload was refused is in status error when the
  uploads have ended, and the successful poll result of the same submission marks it done.
\<close>

theorem submit_async_counterexample:
  "map status (submit_uploads [failed_item] refused_500) = [Error] \<and>
   map status (submit_async no_parse [failed_item] refused_500 (Inr (Ok (schema_json docA)))) = [Done]"
  by (simp add: submit_async_def submit_uploads_def refused_500_def upload_end_def setStatus_def
      poll_finish_def failed_item_def new_item_def result_docs_docA merge_docA)

text \<open>
  C7, amended. An item, whatever its status, is left as it is by a status update
  addressed to another id and by the removal of another id. The last step of a
  submission, however, writes the status of every item of the list: done, with the
  message \<^verbatim>\<open>Completed\<close>, after a successful poll result whose payload parses and
  merges, and error, with the failure message, after a failed one; the items themselves
  (ids and files, in order) stay. So done and error are final only among the items' own
  updates, and a successful poll result moves an item that is in status error to done.
\<close>

theorem submit_async_overwrites:
  "(\<forall>it \<in> set items. item_id it \<noteq> i \<longrightarrow>
      it \<in> set (setStatus i st msg items) \<and> it \<in> set (removeOne i items)) \<and>
   (result_docs parse v = Inr docs \<and> mergeSchemas docs = Inr merged \<longrightarrow>
      (\<forall>it \<in> set (submit_async parse items ends (Inr (Ok v))).
         status it = Done \<and> message it = Some ''Completed'')) \<and>
   (\<forall>it \<in> set (submit_async parse items ends (Inr (Err e))).
      status it = Error \<and> message it = Some e) \<and>
   map item_id (submit_async parse items ends out) = map item_id items \<and>
   map item_file (submit_async parse items ends out) = map item_file items"
proof -
  have a: "\<forall>it \<in> set items. item_id it \<noteq> i \<longrightarrow>
      it \<in> set (setStatus i st msg items) \<and> it \<in> set (removeOne i items)"
    by (force simp: setStatus_def removeOne_def)
  have b: "result_docs parse v = Inr docs \<and> mergeSchemas docs = Inr merged \<longrightarrow>
      (\<forall>it \<in> set (submit_async parse items ends (Inr (Ok v))).
         status it = Done \<and> message it = Some ''Completed'')"
    by (auto simp: submit_async_def poll_finish_def)
  have c: "\<forall>it \<in> set (submit_async parse items ends (Inr (Err e))).
      status it = Error \<and> message it = Some e"
    by (auto simp: submit_async_def poll_finish_def)
  have d: "map item_id (submit_async parse items ends out) = map item_id items"
    "map item_file (submit_async parse items ends out) = map item_file items"
    by (simp_all add: submit_async_def submit_uploads_def)
  from a b c d show ?thesis by blast
qed

theorem submit_async_overwrites_witness:
  "status (hd (submit_uploads [failed_item] refused_500)) = Error \<and>
   status (hd (submit_async no_parse [failed_item] refused_500 (Inr (Ok (schema_json docA))))) = Done \<and>
   status (hd (submit_async no_parse [failed_item] refused_500
      (Inr (Err ''No result within polling window'')))) = Error"
proof -
  let ?ok = "submit_async no_parse [failed_item] refused_500 (Inr (Ok (schema_json docA)))"
  let ?no = "submit_async no_parse [failed_item] refused_500 (Inr (Err ''No result within polling window''))"
  note t = submit_async_overwrites[of "[failed_item]" "[]" Pending None no_parse "schema_json docA"
      "schema_json docA" "merged_of docA" refused_500 "''No result within polling window''"]
  have one: "map item_id xs = map item_id [failed_item] \<Longrightarrow> hd xs \<in> set xs" for xs :: "Item list"
    by (cases xs) simp_all
  have ok: "result_docs no_parse (schema_json docA) = Inr (schema_json docA) \<and>
      mergeSchemas (schema_json docA) = Inr (merged_of docA)"
    by (simp add: result_docs_docA merge_docA)
  from t[of "Inr (Ok (schema_json docA))", THEN conjunct2, THEN conjunct2, THEN conjunct2, THEN conjunct1]
  have "hd ?ok \<in> set ?ok" by (rule one)
  with t[of "Inr (Ok (schema_json docA))", THEN conjunct2, THEN conjunct1, THEN mp, OF ok]
  have a: "status (hd ?ok) = Done" by blast
  from t[of "Inr (Err ''No result within polling window'')", THEN conjunct2, THEN conjunct2,
      THEN conjunct2, THEN conjunct1]
  have "hd ?no \<in> set ?no" by (rule one)
  with t[of "Inr (Err ''No result within polling window'')", THEN conjunct2, THEN conjunct2, THEN conjunct1]
  have b: "status (hd ?no) = Error" by blast
  have c: "status (hd (submit_uploads [failed_item] refused_500)) = Error"
    by (simp add: submit_uploads_def refused_500_def upload_end_def setStatus_def)
  from a b c show ?thesis by simp
qed

end
